theory Spec2Isabelle
  imports Main "HOL-Library.Word"
begin

unbundle bit_operations_syntax

section \<open>The frame receiver and renderer of ESP\_screen\_receiver.ino\<close>

text \<open>
  The sketch receives packed 1-bit frames of 128 x 96 pixels over the serial link and
  draws them on a TFT panel, one scanline per transfer. The embedding below follows the
  sketch line by line. C \<^verbatim>\<open>int\<close> variables are HOL integers: every value the sketch
  computes stays below 1536, far from the 32-bit range, so no wrap-around is written
  out. \<^verbatim>\<open>uint8_t\<close> is an 8-bit word and \<^verbatim>\<open>uint16_t\<close> a 16-bit word.
\<close>

subsection \<open>Constants and array accesses\<close>

type_synonym byte = "8 word"
type_synonym color = "16 word"

definition FRAME_W :: int where
  "FRAME_W = 128"

definition FRAME_H :: int where
  "FRAME_H = 96"

definition BYTES_PER_FRAME :: int where
  "BYTES_PER_FRAME = (FRAME_W * FRAME_H) div 8"

text \<open>
  Modelled from the spec: \<^verbatim>\<open>TFT_WHITE\<close> and \<^verbatim>\<open>TFT_BLACK\<close> are macros of the TFT\_eSPI
  header, which is not part of the repository. The specification calls them the "on"
  colour (white) and the "off" colour (black); their RGB565 values in that header are
  0xFFFF and 0x0000. The theorems below use only that the two differ.
\<close>

definition TFT_WHITE :: color where
  "TFT_WHITE = 0xFFFF"

definition TFT_BLACK :: color where
  "TFT_BLACK = 0x0000"

text \<open>
  An access outside an array is undefined behaviour in C. The embedded accesses return
  \<open>None\<close> there, and every function that indexes an array propagates it.
\<close>

definition read_at :: "'a list \<Rightarrow> int \<Rightarrow> 'a option" where
  "read_at xs i = (if 0 \<le> i \<and> i < int (length xs) then Some (xs ! nat i) else None)"

definition write_at :: "'a list \<Rightarrow> int \<Rightarrow> 'a \<Rightarrow> 'a list option" where
  "write_at xs i v = (if 0 \<le> i \<and> i < int (length xs) then Some (xs[nat i := v]) else None)"

subsection \<open>The display collaborator\<close>

text \<open>
  Modelled from the spec: the panel is driven through the TFT\_eSPI library, which is not
  part of the repository. The renderer uses one operation of it,
  \<^verbatim>\<open>pushImage(x, y, w, h, data)\<close>, the specification's "write N horizontal pixels at
  (x, y) from a row of color values": it copies \<open>w * h\<close> colour values, row-major, from
  \<open>data\<close> into the window whose top-left corner is \<open>(x, y)\<close>, and reads outside
  \<open>data\<close> when it holds fewer values than that. The display state is the surface
  (a colour for every coordinate) together with the log of the transfers issued so far.
  The panel is taken to be at least as large as the frame, so the library's clipping at
  the panel's edge is not modelled.
\<close>

datatype transfer = PushImage int int int int "color list"

record display =
  surface :: "int \<times> int \<Rightarrow> color"
  transfers :: "transfer list"

definition pushImage :: "int \<Rightarrow> int \<Rightarrow> int \<Rightarrow> int \<Rightarrow> color list \<Rightarrow> display \<Rightarrow> display option" where
  "pushImage x y w h data d =
     (if int (length data) < w * h then None
      else Some (d\<lparr>surface :=
                     (\<lambda>(px, py).
                        if x \<le> px \<and> px < x + w \<and> y \<le> py \<and> py < y + h
                        then data ! nat ((py - y) * w + (px - x))
                        else surface d (px, py)),
                   transfers := transfers d @ [PushImage x y w h (take (nat (w * h)) data)]\<rparr>))"

subsection \<open>The serial port\<close>

text \<open>
  Modelled from the spec: \<^verbatim>\<open>Serial\<close> is the Arduino core's serial stream, which is not
  part of the repository. The port holds the bytes received and not yet consumed
  (\<open>rx\<close>) and the bytes written so far (\<open>tx\<close>, oldest first). \<^verbatim>\<open>available\<close> counts the
  buffered bytes, \<^verbatim>\<open>read\<close> consumes the oldest one (and returns -1 on an empty
  buffer), \<^verbatim>\<open>write\<close> sends one byte.

  \<^verbatim>\<open>readBytes(buffer, length)\<close> blocks until \<open>length\<close> bytes are read or the stream
  times out, stores what it read at the start of \<open>buffer\<close> and returns the count. Its
  argument \<open>wire\<close> is what the link delivers while the call blocks, up to the first gap
  longer than the timeout; bytes of it that the call does not consume stay buffered.
  The program is sequential: a byte that arrives while the flush of a cycle runs is
  either flushed with the rest or counts as part of \<open>wire\<close>.
\<close>

record serial =
  rx :: "byte list"
  tx :: "byte list"

definition Serial_available :: "serial \<Rightarrow> int" where
  "Serial_available p = int (length (rx p))"

definition Serial_read :: "serial \<Rightarrow> int \<times> serial" where
  "Serial_read p = (case rx p of [] \<Rightarrow> (- 1, p) | b # bs \<Rightarrow> (uint b, p\<lparr>rx := bs\<rparr>))"

definition Serial_write :: "byte \<Rightarrow> serial \<Rightarrow> serial" where
  "Serial_write b p = p\<lparr>tx := tx p @ [b]\<rparr>"

definition Serial_readBytes :: "byte list \<Rightarrow> int \<Rightarrow> byte list \<Rightarrow> serial \<Rightarrow> (int \<times> byte list \<times> serial) option" where
  "Serial_readBytes buffer len wire p =
     (let stream = rx p @ wire;
          got = take (nat len) stream
      in if length buffer < length got then None
         else Some (int (length got), got @ drop (length got) buffer,
                    p\<lparr>rx := drop (nat len) stream\<rparr>))"

subsection \<open>The program state\<close>

text \<open>
  \<open>frameBuf\<close> is the global receive buffer, \<open>lineBuf\<close> the static scanline buffer of
  \<^verbatim>\<open>drawFrameFast\<close>, \<open>tft\<close> the display and \<open>Serial\<close> the port.
\<close>

record state =
  frameBuf :: "byte list"
  lineBuf :: "color list"
  tft :: display
  Serial :: serial

subsection \<open>drawFrameFast\<close>

text \<open>
  The inner loop over \<open>x\<close>. \<open>rowData\<close> is the pointer \<^verbatim>\<open>data + y * bytesPerRow\<close>, kept as
  its offset into \<open>data\<close>. The byte is promoted to \<^verbatim>\<open>int\<close> before the mask is applied,
  and the \<^verbatim>\<open>bool\<close> is true when the result is not zero.
\<close>

function line_loop :: "byte list \<Rightarrow> int \<Rightarrow> int \<Rightarrow> color list \<Rightarrow> color list option" where
  "line_loop data rowData x lb =
     (if x < FRAME_W then
        (case read_at data (rowData + drop_bit 3 x) of
           None \<Rightarrow> None
         | Some byte \<Rightarrow>
             (let pixel = (uint byte AND drop_bit (nat (x AND 7)) 0x80 \<noteq> 0) in
              case write_at lb x (if pixel then TFT_WHITE else TFT_BLACK) of
                None \<Rightarrow> None
              | Some lb' \<Rightarrow> line_loop data rowData (x + 1) lb'))
      else Some lb)"
  by pat_completeness auto
termination
  by (relation "measure (\<lambda>(data, rowData, x, lb). nat (FRAME_W - x))") auto

declare line_loop.simps [simp del]

text \<open>The outer loop over \<open>y\<close>: decode one row into \<open>lineBuf\<close>, then push it.\<close>

function row_loop :: "byte list \<Rightarrow> int \<Rightarrow> int \<Rightarrow> state \<Rightarrow> state option" where
  "row_loop data bytesPerRow y s =
     (if y < FRAME_H then
        (case line_loop data (y * bytesPerRow) 0 (lineBuf s) of
           None \<Rightarrow> None
         | Some lb \<Rightarrow>
             (case pushImage 0 y FRAME_W 1 lb (tft s) of
                None \<Rightarrow> None
              | Some d \<Rightarrow> row_loop data bytesPerRow (y + 1) (s\<lparr>lineBuf := lb, tft := d\<rparr>)))
      else Some s)"
  by pat_completeness auto
termination
  by (relation "measure (\<lambda>(data, bytesPerRow, y, s). nat (FRAME_H - y))") auto

declare row_loop.simps [simp del]

definition drawFrameFast :: "byte list \<Rightarrow> state \<Rightarrow> state option" where
  "drawFrameFast data s = (let bytesPerRow = FRAME_W div 8 in row_loop data bytesPerRow 0 s)"

subsection \<open>loop\<close>

text \<open>The flush: \<^verbatim>\<open>while (Serial.available()) Serial.read();\<close>\<close>

function flush_loop :: "serial \<Rightarrow> serial" where
  "flush_loop p = (if Serial_available p \<noteq> 0 then flush_loop (snd (Serial_read p)) else p)"
  by pat_completeness auto
termination
  by (relation "measure (\<lambda>p. length (rx p))")
     (auto simp: Serial_available_def Serial_read_def split: list.splits)

declare flush_loop.simps [simp del]

text \<open>
  One call of \<^verbatim>\<open>loop()\<close>. \<open>wire\<close> is what the link delivers during the blocking read of
  this cycle.
\<close>

definition loop :: "byte list \<Rightarrow> state \<Rightarrow> state option" where
  "loop wire s =
     (let p1 = flush_loop (Serial s) in
      case Serial_readBytes (frameBuf s) BYTES_PER_FRAME wire p1 of
        None \<Rightarrow> None
      | Some (bytesRead, buf, p2) \<Rightarrow>
          (let s1 = s\<lparr>frameBuf := buf, Serial := p2\<rparr> in
           if bytesRead = BYTES_PER_FRAME then
             (case drawFrameFast (frameBuf s1) s1 of
                None \<Rightarrow> None
              | Some s2 \<Rightarrow> Some (s2\<lparr>Serial := Serial_write 0xAA (Serial s2)\<rparr>))
           else Some s1))"

text \<open>
  The Arduino runtime calls \<^verbatim>\<open>loop()\<close> again and again; \<open>run\<close> is a finite prefix of
  that, one element of the list for the link's delivery in each cycle.
\<close>

fun run :: "byte list list \<Rightarrow> state \<Rightarrow> state option" where
  "run [] s = Some s"
| "run (wire # wires) s = (case loop wire s of None \<Rightarrow> None | Some s' \<Rightarrow> run wires s')"

subsection \<open>The order of the effects\<close>

text \<open>
  The state keeps the display's transfers and the port's outbound bytes in two separate
  logs, so it does not tell whether a transfer happened before a write or after it. The
  traced functions below are the same loops and the same \<^verbatim>\<open>loop()\<close>, statement for
  statement, with one more argument: the calls made to the two collaborators so far.
  Every call the sketch makes is appended in program order: \<^verbatim>\<open>Serial.read()\<close> with the
  value it returned, \<^verbatim>\<open>Serial.readBytes()\<close> with the count it returned,
  \<^verbatim>\<open>tft.pushImage()\<close> with its arguments and \<^verbatim>\<open>Serial.write()\<close> with its byte.
  \<^verbatim>\<open>Serial.available()\<close> changes nothing and is not recorded.
\<close>

datatype event = SerialRead int | SerialReadBytes int | Pushed transfer | SerialWrite byte

function flush_loop_traced :: "serial \<Rightarrow> event list \<Rightarrow> serial \<times> event list" where
  "flush_loop_traced p ev =
     (if Serial_available p \<noteq> 0 then
        (case Serial_read p of (c, p') \<Rightarrow> flush_loop_traced p' (ev @ [SerialRead c]))
      else (p, ev))"
  by pat_completeness auto
termination
  by (relation "measure (\<lambda>(p, ev). length (rx p))")
     (auto simp: Serial_available_def Serial_read_def split: list.splits)

declare flush_loop_traced.simps [simp del]

function row_loop_traced :: "byte list \<Rightarrow> int \<Rightarrow> int \<Rightarrow> state \<Rightarrow> event list \<Rightarrow> (state \<times> event list) option" where
  "row_loop_traced data bytesPerRow y s ev =
     (if y < FRAME_H then
        (case line_loop data (y * bytesPerRow) 0 (lineBuf s) of
           None \<Rightarrow> None
         | Some lb \<Rightarrow>
             (case pushImage 0 y FRAME_W 1 lb (tft s) of
                None \<Rightarrow> None
              | Some d \<Rightarrow>
                  row_loop_traced data bytesPerRow (y + 1) (s\<lparr>lineBuf := lb, tft := d\<rparr>)
                    (ev @ [Pushed (PushImage 0 y FRAME_W 1 lb)])))
      else Some (s, ev))"
  by pat_completeness auto
termination
  by (relation "measure (\<lambda>(data, bytesPerRow, y, s, ev). nat (FRAME_H - y))") auto

declare row_loop_traced.simps [simp del]

definition drawFrameFast_traced :: "byte list \<Rightarrow> state \<Rightarrow> event list \<Rightarrow> (state \<times> event list) option" where
  "drawFrameFast_traced data s ev =
     (let bytesPerRow = FRAME_W div 8 in row_loop_traced data bytesPerRow 0 s ev)"

definition loop_traced :: "byte list \<Rightarrow> state \<Rightarrow> event list \<Rightarrow> (state \<times> event list) option" where
  "loop_traced wire s ev =
     (case flush_loop_traced (Serial s) ev of
        (p1, ev1) \<Rightarrow>
          (case Serial_readBytes (frameBuf s) BYTES_PER_FRAME wire p1 of
             None \<Rightarrow> None
           | Some (bytesRead, buf, p2) \<Rightarrow>
               (let s1 = s\<lparr>frameBuf := buf, Serial := p2\<rparr>;
                    ev2 = ev1 @ [SerialReadBytes bytesRead]
                in if bytesRead = BYTES_PER_FRAME then
                     (case drawFrameFast_traced (frameBuf s1) s1 ev2 of
                        None \<Rightarrow> None
                      | Some (s2, ev3) \<Rightarrow>
                          Some (s2\<lparr>Serial := Serial_write 0xAA (Serial s2)\<rparr>,
                                ev3 @ [SerialWrite 0xAA]))
                   else Some (s1, ev2))))"

fun run_traced :: "byte list list \<Rightarrow> state \<Rightarrow> event list \<Rightarrow> (state \<times> event list) option" where
  "run_traced [] s ev = Some (s, ev)"
| "run_traced (wire # wires) s ev =
     (case loop_traced wire s ev of None \<Rightarrow> None | Some (s', ev') \<Rightarrow> run_traced wires s' ev')"

subsection \<open>Well-formed states\<close>

text \<open>
  The two arrays have the sizes the sketch declares:
  \<^verbatim>\<open>uint8_t frameBuf[BYTES_PER_FRAME]\<close> and \<^verbatim>\<open>static uint16_t lineBuf[FRAME_W]\<close>.
\<close>

definition buffers_ok :: "state \<Rightarrow> bool" where
  "buffers_ok s = (length (frameBuf s) = nat BYTES_PER_FRAME \<and> length (lineBuf s) = nat FRAME_W)"

text \<open>
  The state in which \<^verbatim>\<open>loop()\<close> is first entered: C zero-initialises both arrays, nothing
  has been received or sent, and the panel is black, as \<^verbatim>\<open>fillScreen(TFT_BLACK)\<close> of
  \<^verbatim>\<open>setup()\<close> leaves it. The splash text that \<^verbatim>\<open>setup()\<close> prints afterwards is drawn
  with the library's font and is left out; the theorems hold for any surface.
\<close>

definition boot_state :: state where
  "boot_state =
     \<lparr>frameBuf = replicate (nat BYTES_PER_FRAME) 0,
      lineBuf = replicate (nat FRAME_W) 0,
      tft = \<lparr>surface = (\<lambda>p. TFT_BLACK), transfers = []\<rparr>,
      Serial = \<lparr>rx = [], tx = []\<rparr>\<rparr>"

text \<open>
  A second well-formed state, with other contents in the frame buffer, an all-white
  surface and one earlier transfer; it serves as a different starting point.
\<close>

definition painted_state :: state where
  "painted_state =
     boot_state\<lparr>frameBuf := replicate (nat BYTES_PER_FRAME) 0x3C,
                tft := \<lparr>surface = (\<lambda>p. TFT_WHITE), transfers = [PushImage 0 0 1 1 [TFT_WHITE]]\<rparr>\<rparr>"

subsection \<open>What the specification says a frame looks like\<close>

text \<open>
  These three definitions follow the specification's words, not the code; the theorems
  below compare the code with them. The colour of pixel \<open>(x, y)\<close> of a frame is white
  when bit \<open>7 - x mod 8\<close> of byte \<open>x div 8\<close> of the row that starts \<open>y * (width div 8)\<close>
  bytes into the frame is set, and black otherwise; a row is its \<open>width\<close> colours from
  left to right; a frame is drawn as one whole-row transfer at \<open>(0, y)\<close> for each row,
  top to bottom.
\<close>

definition spec_pixel :: "byte list \<Rightarrow> int \<Rightarrow> int \<Rightarrow> color" where
  "spec_pixel data x y =
     (if bit (data ! nat (y * (FRAME_W div 8) + x div 8)) (nat (7 - x mod 8))
      then TFT_WHITE else TFT_BLACK)"

definition spec_row :: "byte list \<Rightarrow> int \<Rightarrow> color list" where
  "spec_row data y = map (\<lambda>i. spec_pixel data (int i) y) [0..<nat FRAME_W]"

definition spec_transfers :: "byte list \<Rightarrow> transfer list" where
  "spec_transfers data =
     map (\<lambda>j. PushImage 0 (int j) FRAME_W 1 (spec_row data (int j))) [0..<nat FRAME_H]"

subsection \<open>Reading the surface back\<close>

text \<open>
  The decoder of the round-trip property, as the specification words it for a test
  harness with surface readback: a white pixel is a set bit and a black pixel a clear
  bit, and the bits are repacked row-major, most significant bit first, eight pixels to
  a byte. \<open>pack_msb\<close> shifts the bits in from the left; byte \<open>k\<close> of row \<open>y\<close> collects
  the pixels \<open>8 * k\<close> to \<open>8 * k + 7\<close> of that row.
\<close>

definition pack_msb :: "bool list \<Rightarrow> byte" where
  "pack_msb bs = foldl (\<lambda>acc b. 2 * acc + of_bool b) 0 bs"

definition readback_byte :: "display \<Rightarrow> int \<Rightarrow> int \<Rightarrow> byte" where
  "readback_byte d k y =
     pack_msb (map (\<lambda>j. surface d (8 * k + int j, y) = TFT_WHITE) [0..<8])"

definition readback :: "display \<Rightarrow> byte list" where
  "readback d =
     map (\<lambda>n. readback_byte d (int n mod (FRAME_W div 8)) (int n div (FRAME_W div 8)))
         [0..<nat BYTES_PER_FRAME]"

subsection \<open>What the specification says a cycle does, in order\<close>

text \<open>
  These definitions follow the specification's words. A cycle first discards every byte
  that is buffered (\<open>stale\<close>), then attempts the read; when the read is complete it draws
  the frame, one row transfer after the other, and only then sends one byte 0xAA. A run
  of cycles is one cycle after the other, each starting with what the previous read
  left buffered. \<open>written\<close> keeps the bytes of the \<^verbatim>\<open>Serial.write()\<close> events.
\<close>

definition cycle_events :: "byte list \<Rightarrow> byte list \<Rightarrow> event list" where
  "cycle_events stale wire =
     map (\<lambda>b. SerialRead (uint b)) stale @
     [SerialReadBytes (int (min (nat BYTES_PER_FRAME) (length wire)))] @
     (if BYTES_PER_FRAME \<le> int (length wire)
      then map Pushed (spec_transfers (take (nat BYTES_PER_FRAME) wire)) @ [SerialWrite 0xAA]
      else [])"

fun run_events :: "byte list \<Rightarrow> byte list list \<Rightarrow> event list" where
  "run_events stale [] = []"
| "run_events stale (wire # wires) =
     cycle_events stale wire @ run_events (drop (nat BYTES_PER_FRAME) wire) wires"

fun written :: "event list \<Rightarrow> byte list" where
  "written [] = []"
| "written (SerialWrite b # es) = b # written es"
| "written (e # es) = written es"

section \<open>Properties\<close>

subsection \<open>The bit test\<close>

lemma and_7_eq_mod_8: "(x::int) AND 7 = x mod 8"
proof -
  have "x AND mask 3 = take_bit 3 x"
    by (simp only: take_bit_eq_mask)
  then show ?thesis
    by (simp add: take_bit_eq_mod mask_eq_exp_minus_1)
qed

lemma shift_3_eq_div_8: "drop_bit 3 (x::int) = x div 8"
  by (simp add: drop_bit_eq_div)

lemma mask_test:
  assumes "k < 8"
  shows "(uint (b::byte) AND drop_bit k 0x80 \<noteq> 0) = bit b (7 - k)"
proof -
  have "drop_bit k (0x80::int) = 2 ^ (7 - k)"
    using assms drop_bit_exp_eq [of k 7, where ?'a = int] by simp
  moreover have "7 - k < (8::nat)"
    by arith
  ultimately show ?thesis
    by (simp add: and_exp_eq_0_iff_not_bit bit_uint_iff)
qed

lemma pixel_test:
  "(uint (b::byte) AND drop_bit (nat (x AND 7)) 0x80 \<noteq> 0) = bit b (nat (7 - x mod 8))"
proof -
  have k: "nat (x mod 8) < 8"
    by simp
  have "7 - nat (x mod 8) = nat (7 - x mod 8)"
    by simp
  with mask_test [OF k, of b] show ?thesis
    by (simp add: and_7_eq_mod_8)
qed

subsection \<open>The loops of the renderer\<close>

lemma frame_index_bounds:
  assumes "0 \<le> y" "y < FRAME_H" "0 \<le> x" "x < FRAME_W"
  shows "0 \<le> y * (FRAME_W div 8) + x div 8"
    and "y * (FRAME_W div 8) + x div 8 < BYTES_PER_FRAME"
  using assms by (auto simp: FRAME_W_def FRAME_H_def BYTES_PER_FRAME_def)

lemma line_loop_result:
  assumes "0 \<le> x" "x \<le> FRAME_W" "length lb = nat FRAME_W"
    and "0 \<le> y" "y < FRAME_H" "length data = nat BYTES_PER_FRAME"
  shows "line_loop data (y * (FRAME_W div 8)) x lb =
           Some (take (nat x) lb @ map (\<lambda>i. spec_pixel data (int i) y) [nat x..<nat FRAME_W])"
  using assms
proof (induction data "y * (FRAME_W div 8)" x lb rule: line_loop.induct)
  case (1 data x lb)
  let ?off = "y * (FRAME_W div 8)"
  show ?case
  proof (cases "x < FRAME_W")
    case False
    with "1.prems" have "x = FRAME_W"
      by simp
    with "1.prems" show ?thesis
      by (simp add: line_loop.simps [of data ?off FRAME_W lb])
  next
    case True
    let ?c = "spec_pixel data x y"
    let ?p = "uint (data ! nat (?off + x div 8)) AND drop_bit (nat (x AND 7)) 0x80 \<noteq> 0"
    have idx: "0 \<le> ?off + x div 8" "?off + x div 8 < int (length data)"
      using frame_index_bounds [of y x] "1.prems" True by simp_all
    have rd: "read_at data (?off + drop_bit 3 x) = Some (data ! nat (?off + x div 8))"
      using idx by (simp add: read_at_def shift_3_eq_div_8)
    have col: "(if ?p then TFT_WHITE else TFT_BLACK) = ?c"
      by (simp only: pixel_test spec_pixel_def)
    have wr: "write_at lb x (if ?p then TFT_WHITE else TFT_BLACK) = Some (lb[nat x := ?c])"
      using "1.prems" True by (simp only: col) (simp add: write_at_def)
    have step: "line_loop data ?off x lb = line_loop data ?off (x + 1) (lb[nat x := ?c])"
      using True rd wr by (subst line_loop.simps) (simp add: Let_def)
    have ih: "line_loop data ?off (x + 1) (lb[nat x := ?c]) =
                Some (take (nat (x + 1)) (lb[nat x := ?c]) @
                      map (\<lambda>i. spec_pixel data (int i) y) [nat (x + 1)..<nat FRAME_W])"
      using "1.hyps" [OF True rd refl wr] "1.prems" True by simp
    have nx: "nat (x + 1) = Suc (nat x)"
      using "1.prems" by simp
    have lt: "nat x < nat FRAME_W"
      using "1.prems" True by simp
    have tk: "take (Suc (nat x)) (lb[nat x := ?c]) = take (nat x) lb @ [?c]"
      using lt "1.prems" by (simp add: take_Suc_conv_app_nth)
    have up: "[nat x..<nat FRAME_W] = nat x # [Suc (nat x)..<nat FRAME_W]"
      using lt by (simp add: upt_conv_Cons)
    show ?thesis
      using "1.prems" by (simp add: step ih nx tk up)
  qed
qed

lemma line_loop_row:
  assumes "length lb = nat FRAME_W" "0 \<le> y" "y < FRAME_H" "length data = nat BYTES_PER_FRAME"
  shows "line_loop data (y * (FRAME_W div 8)) 0 lb = Some (spec_row data y)"
  using line_loop_result [of 0 lb y data] assms by (simp add: spec_row_def FRAME_W_def)

lemma length_spec_row: "length (spec_row data y) = nat FRAME_W"
  by (simp add: spec_row_def)

lemma spec_row_nth:
  assumes "0 \<le> x" "x < FRAME_W"
  shows "spec_row data y ! nat x = spec_pixel data x y"
  using assms by (simp add: spec_row_def)

lemma pushImage_row:
  "pushImage 0 y FRAME_W 1 (spec_row data y) d =
     Some (d\<lparr>surface := (\<lambda>(px, py). if 0 \<le> px \<and> px < FRAME_W \<and> py = y
                                       then spec_pixel data px y else surface d (px, py)),
              transfers := transfers d @ [PushImage 0 y FRAME_W 1 (spec_row data y)]\<rparr>)"
proof -
  have "(\<lambda>(px, py). if 0 \<le> px \<and> px < 0 + FRAME_W \<and> y \<le> py \<and> py < y + 1
                      then spec_row data y ! nat ((py - y) * FRAME_W + (px - 0))
                      else surface d (px, py)) =
        (\<lambda>(px, py). if 0 \<le> px \<and> px < FRAME_W \<and> py = y
                      then spec_pixel data px y else surface d (px, py))"
    by (auto simp: fun_eq_iff spec_row_nth)
  then show ?thesis
    by (simp add: pushImage_def length_spec_row)
qed

lemma row_loop_result:
  assumes "0 \<le> y" "y \<le> FRAME_H" "length data = nat BYTES_PER_FRAME"
    and "length (lineBuf s) = nat FRAME_W"
  shows "\<exists>s'. row_loop data (FRAME_W div 8) y s = Some s' \<and>
              frameBuf s' = frameBuf s \<and> Serial s' = Serial s \<and>
              lineBuf s' = (if y < FRAME_H then spec_row data (FRAME_H - 1) else lineBuf s) \<and>
              surface (tft s') =
                (\<lambda>(px, py). if 0 \<le> px \<and> px < FRAME_W \<and> y \<le> py \<and> py < FRAME_H
                              then spec_pixel data px py else surface (tft s) (px, py)) \<and>
              transfers (tft s') = transfers (tft s) @
                map (\<lambda>j. PushImage 0 (int j) FRAME_W 1 (spec_row data (int j))) [nat y..<nat FRAME_H]"
  using assms
proof (induction data "FRAME_W div 8" y s rule: row_loop.induct)
  case (1 data y s)
  show ?case
  proof (cases "y < FRAME_H")
    case False
    with "1.prems" have "y = FRAME_H"
      by simp
    then show ?thesis
      by (auto simp: row_loop.simps [of data _ FRAME_H s] fun_eq_iff)
  next
    case True
    let ?lb = "spec_row data y"
    let ?d = "(tft s)\<lparr>surface := (\<lambda>(px, py). if 0 \<le> px \<and> px < FRAME_W \<and> py = y
                                       then spec_pixel data px y else surface (tft s) (px, py)),
              transfers := transfers (tft s) @ [PushImage 0 y FRAME_W 1 (spec_row data y)]\<rparr>"
    let ?s1 = "s\<lparr>lineBuf := ?lb, tft := ?d\<rparr>"
    have ll: "line_loop data (y * (FRAME_W div 8)) 0 (lineBuf s) = Some ?lb"
      using line_loop_row "1.prems" True by simp
    have pi: "pushImage 0 y FRAME_W 1 ?lb (tft s) = Some ?d"
      by (rule pushImage_row)
    have step: "row_loop data (FRAME_W div 8) y s = row_loop data (FRAME_W div 8) (y + 1) ?s1"
      using True ll pi by (subst row_loop.simps) simp
    have p1: "0 \<le> y + 1" "y + 1 \<le> FRAME_H" "length (lineBuf ?s1) = nat FRAME_W"
      using "1.prems" True by (simp_all add: length_spec_row)
    note ih = "1.hyps" [OF True ll pi p1(1,2) "1.prems"(3) p1(3)]
    then obtain s' where s': "row_loop data (FRAME_W div 8) (y + 1) ?s1 = Some s'"
      and fb0: "frameBuf s' = frameBuf ?s1" and sp0: "Serial s' = Serial ?s1"
      and lb0: "lineBuf s' = (if y + 1 < FRAME_H then spec_row data (FRAME_H - 1) else lineBuf ?s1)"
      and sf0: "surface (tft s') =
                (\<lambda>(px, py). if 0 \<le> px \<and> px < FRAME_W \<and> y + 1 \<le> py \<and> py < FRAME_H
                              then spec_pixel data px py else surface (tft ?s1) (px, py))"
      and tr0: "transfers (tft s') = transfers (tft ?s1) @
                map (\<lambda>j. PushImage 0 (int j) FRAME_W 1 (spec_row data (int j))) [nat (y + 1)..<nat FRAME_H]"
      by blast
    have t1: "tft ?s1 = ?d"
      by simp
    have fb: "frameBuf s' = frameBuf s" and sp: "Serial s' = Serial s"
      by (simp_all add: fb0 sp0)
    have lb: "lineBuf s' = (if y + 1 < FRAME_H then spec_row data (FRAME_H - 1) else ?lb)"
      by (simp add: lb0)
    have sf: "surface (tft s') =
                (\<lambda>(px, py). if 0 \<le> px \<and> px < FRAME_W \<and> y + 1 \<le> py \<and> py < FRAME_H
                              then spec_pixel data px py else surface ?d (px, py))"
      by (simp only: sf0 t1)
    have tr: "transfers (tft s') = transfers ?d @
                map (\<lambda>j. PushImage 0 (int j) FRAME_W 1 (spec_row data (int j))) [nat (y + 1)..<nat FRAME_H]"
      by (simp only: tr0 t1)
    have lb': "lineBuf s' = spec_row data (FRAME_H - 1)"
    proof (cases "y + 1 < FRAME_H")
      case True
      with lb show ?thesis by simp
    next
      case False
      with True have "y = FRAME_H - 1" by simp
      with lb False show ?thesis by simp
    qed
    have sf': "surface (tft s') =
                (\<lambda>(px, py). if 0 \<le> px \<and> px < FRAME_W \<and> y \<le> py \<and> py < FRAME_H
                              then spec_pixel data px py else surface (tft s) (px, py))"
      using True by (auto simp: sf fun_eq_iff)
    have up: "[nat y..<nat FRAME_H] = nat y # [nat (y + 1)..<nat FRAME_H]"
      using True "1.prems" by (simp add: upt_conv_Cons nat_add_distrib)
    have tr': "transfers (tft s') = transfers (tft s) @
                map (\<lambda>j. PushImage 0 (int j) FRAME_W 1 (spec_row data (int j))) [nat y..<nat FRAME_H]"
      using "1.prems" by (simp add: tr up)
    show ?thesis
      using True s' fb sp lb' sf' tr' by (simp add: step)
  qed
qed

lemma drawFrameFast_result:
  assumes "length data = nat BYTES_PER_FRAME" "length (lineBuf s) = nat FRAME_W"
  shows "\<exists>s'. drawFrameFast data s = Some s' \<and>
              frameBuf s' = frameBuf s \<and> Serial s' = Serial s \<and>
              lineBuf s' = spec_row data (FRAME_H - 1) \<and>
              surface (tft s') =
                (\<lambda>(px, py). if 0 \<le> px \<and> px < FRAME_W \<and> 0 \<le> py \<and> py < FRAME_H
                              then spec_pixel data px py else surface (tft s) (px, py)) \<and>
              transfers (tft s') = transfers (tft s) @ spec_transfers data"
proof -
  have "(0::int) \<le> 0" "0 \<le> FRAME_H" "0 < FRAME_H"
    by (simp_all add: FRAME_H_def)
  from row_loop_result [OF this(1,2) assms] this(3) show ?thesis
    by (simp add: drawFrameFast_def spec_transfers_def)
qed

subsection \<open>The receive cycle\<close>

lemma flush_loop_result: "flush_loop p = p\<lparr>rx := []\<rparr>"
proof (induction p rule: flush_loop.induct)
  case (1 p)
  show ?case
  proof (cases "rx p")
    case Nil
    then show ?thesis
      by (simp add: flush_loop.simps [of p] Serial_available_def)
  next
    case (Cons b bs)
    then have "Serial_available p \<noteq> 0"
      by (simp add: Serial_available_def)
    from "1.IH" [OF this] this Cons show ?thesis
      by (simp add: flush_loop.simps [of p] Serial_read_def)
  qed
qed

lemma readBytes_flushed:
  assumes "length buffer = nat BYTES_PER_FRAME"
  shows "Serial_readBytes buffer BYTES_PER_FRAME wire (p\<lparr>rx := []\<rparr>) =
           Some (int (min (nat BYTES_PER_FRAME) (length wire)),
                 take (nat BYTES_PER_FRAME) wire @ drop (length wire) buffer,
                 p\<lparr>rx := drop (nat BYTES_PER_FRAME) wire\<rparr>)"
  using assms by (auto simp: Serial_readBytes_def Let_def min_def)

lemma loop_short:
  assumes "int (length wire) < BYTES_PER_FRAME" "buffers_ok s"
  shows "loop wire s =
           Some (s\<lparr>frameBuf := wire @ drop (length wire) (frameBuf s),
                   Serial := (Serial s)\<lparr>rx := []\<rparr>\<rparr>)"
proof -
  have "length (frameBuf s) = nat BYTES_PER_FRAME"
    using assms by (simp add: buffers_ok_def)
  from readBytes_flushed [OF this, of wire "Serial s"] assms(1) show ?thesis
    by (simp add: loop_def flush_loop_result Let_def min_def)
qed

lemma loop_full:
  assumes "BYTES_PER_FRAME \<le> int (length wire)" "buffers_ok s"
  shows "\<exists>s'. loop wire s = Some s' \<and>
              frameBuf s' = take (nat BYTES_PER_FRAME) wire \<and>
              lineBuf s' = spec_row (take (nat BYTES_PER_FRAME) wire) (FRAME_H - 1) \<and>
              surface (tft s') =
                (\<lambda>(px, py). if 0 \<le> px \<and> px < FRAME_W \<and> 0 \<le> py \<and> py < FRAME_H
                              then spec_pixel (take (nat BYTES_PER_FRAME) wire) px py
                              else surface (tft s) (px, py)) \<and>
              transfers (tft s') =
                transfers (tft s) @ spec_transfers (take (nat BYTES_PER_FRAME) wire) \<and>
              Serial s' = \<lparr>rx = drop (nat BYTES_PER_FRAME) wire, tx = tx (Serial s) @ [0xAA]\<rparr>"
proof -
  let ?f = "take (nat BYTES_PER_FRAME) wire"
  let ?s1 = "s\<lparr>frameBuf := ?f, Serial := (Serial s)\<lparr>rx := drop (nat BYTES_PER_FRAME) wire\<rparr>\<rparr>"
  have len: "length (frameBuf s) = nat BYTES_PER_FRAME" "length (lineBuf s) = nat FRAME_W"
    using assms by (simp_all add: buffers_ok_def)
  have lf: "length ?f = nat BYTES_PER_FRAME"
    using assms(1) by simp
  have rb: "Serial_readBytes (frameBuf s) BYTES_PER_FRAME wire (flush_loop (Serial s)) =
              Some (BYTES_PER_FRAME, ?f, (Serial s)\<lparr>rx := drop (nat BYTES_PER_FRAME) wire\<rparr>)"
    using readBytes_flushed [OF len(1), of wire "Serial s"] assms(1) len
    by (simp add: flush_loop_result min_def BYTES_PER_FRAME_def FRAME_W_def FRAME_H_def)
  have "length (lineBuf ?s1) = nat FRAME_W"
    using len by simp
  from drawFrameFast_result [OF lf this]
  obtain s2 where s2: "drawFrameFast ?f ?s1 = Some s2"
    and f2: "frameBuf s2 = frameBuf ?s1" and p2: "Serial s2 = Serial ?s1"
    and l2: "lineBuf s2 = spec_row ?f (FRAME_H - 1)"
    and u2: "surface (tft s2) =
                (\<lambda>(px, py). if 0 \<le> px \<and> px < FRAME_W \<and> 0 \<le> py \<and> py < FRAME_H
                              then spec_pixel ?f px py else surface (tft ?s1) (px, py))"
    and t2: "transfers (tft s2) = transfers (tft ?s1) @ spec_transfers ?f"
    by blast
  have lp: "loop wire s = Some (s2\<lparr>Serial := Serial_write 0xAA (Serial s2)\<rparr>)"
    using s2 by (simp add: loop_def rb Let_def)
  have t1: "tft ?s1 = tft s"
    by simp
  show ?thesis
    unfolding lp using f2 p2 l2 by (simp add: Serial_write_def) (simp only: u2 t2 t1 simp_thms)
qed

lemma loop_full_call:
  assumes "BYTES_PER_FRAME \<le> int (length wire)" "buffers_ok s"
  shows "loop wire s =
           (case drawFrameFast (take (nat BYTES_PER_FRAME) wire)
                   (s\<lparr>frameBuf := take (nat BYTES_PER_FRAME) wire,
                      Serial := (Serial s)\<lparr>rx := drop (nat BYTES_PER_FRAME) wire\<rparr>\<rparr>) of
              None \<Rightarrow> None
            | Some s2 \<Rightarrow> Some (s2\<lparr>Serial := Serial_write 0xAA (Serial s2)\<rparr>))"
proof -
  have len: "length (frameBuf s) = nat BYTES_PER_FRAME"
    using assms(2) by (simp add: buffers_ok_def)
  have "Serial_readBytes (frameBuf s) BYTES_PER_FRAME wire (flush_loop (Serial s)) =
          Some (BYTES_PER_FRAME, take (nat BYTES_PER_FRAME) wire,
                (Serial s)\<lparr>rx := drop (nat BYTES_PER_FRAME) wire\<rparr>)"
    using readBytes_flushed [OF len, of wire "Serial s"] assms(1) len
    by (simp add: flush_loop_result min_def BYTES_PER_FRAME_def FRAME_W_def FRAME_H_def)
  then show ?thesis
    by (simp add: loop_def Let_def)
qed

lemma length_spec_transfers: "length (spec_transfers data) = nat FRAME_H"
  by (simp add: spec_transfers_def)

lemma spec_transfers_not_Nil: "spec_transfers data \<noteq> []"
  using length_spec_transfers [of data] by (auto simp: FRAME_H_def)

lemma loop_buffers_ok:
  assumes "buffers_ok s" "loop wire s = Some s'"
  shows "buffers_ok s'"
proof (cases "BYTES_PER_FRAME \<le> int (length wire)")
  case True
  from loop_full [OF True assms(1)] assms(2) True show ?thesis
    by (auto simp: buffers_ok_def length_spec_row)
next
  case False
  then have "int (length wire) < BYTES_PER_FRAME"
    by simp
  from loop_short [OF this assms(1)] assms this show ?thesis
    by (auto simp: buffers_ok_def)
qed

lemma run_result:
  assumes "buffers_ok s"
  shows "\<exists>s'. run wires s = Some s' \<and> buffers_ok s' \<and>
              tx (Serial s') = tx (Serial s) @
                replicate (length (filter (\<lambda>w. BYTES_PER_FRAME \<le> int (length w)) wires)) 0xAA \<and>
              transfers (tft s') = transfers (tft s) @
                concat (map (\<lambda>w. spec_transfers (take (nat BYTES_PER_FRAME) w))
                            (filter (\<lambda>w. BYTES_PER_FRAME \<le> int (length w)) wires))"
  using assms
proof (induction wires arbitrary: s)
  case Nil
  then show ?case
    by simp
next
  case (Cons w wires)
  show ?case
  proof (cases "BYTES_PER_FRAME \<le> int (length w)")
    case True
    from loop_full [OF True Cons.prems]
    obtain s1 where lp: "loop w s = Some s1"
      and t: "transfers (tft s1) =
                transfers (tft s) @ spec_transfers (take (nat BYTES_PER_FRAME) w)"
      and p: "Serial s1 = \<lparr>rx = drop (nat BYTES_PER_FRAME) w, tx = tx (Serial s) @ [0xAA]\<rparr>"
      by blast
    have ok: "buffers_ok s1"
      using loop_buffers_ok [OF Cons.prems lp] .
    from Cons.IH [OF ok] show ?thesis
      using True by (simp add: lp t p replicate_append_same)
  next
    case False
    then have short: "int (length w) < BYTES_PER_FRAME"
      by simp
    note lp = loop_short [OF short Cons.prems]
    have ok: "buffers_ok (s\<lparr>frameBuf := w @ drop (length w) (frameBuf s),
                            Serial := (Serial s)\<lparr>rx := []\<rparr>\<rparr>)"
      using loop_buffers_ok [OF Cons.prems lp] .
    from Cons.IH [OF ok] show ?thesis
      using False by (simp add: lp)
  qed
qed

lemma loop_frame:
  assumes "buffers_ok s" "length F = nat BYTES_PER_FRAME"
  shows "\<exists>s'. loop F s = Some s' \<and> buffers_ok s' \<and>
              frameBuf s' = F \<and> lineBuf s' = spec_row F (FRAME_H - 1) \<and>
              surface (tft s') =
                (\<lambda>(px, py). if 0 \<le> px \<and> px < FRAME_W \<and> 0 \<le> py \<and> py < FRAME_H
                              then spec_pixel F px py else surface (tft s) (px, py)) \<and>
              transfers (tft s') = transfers (tft s) @ spec_transfers F \<and>
              Serial s' = \<lparr>rx = [], tx = tx (Serial s) @ [0xAA]\<rparr>"
proof -
  have full: "BYTES_PER_FRAME \<le> int (length F)"
    using assms(2) by (simp add: BYTES_PER_FRAME_def FRAME_W_def FRAME_H_def)
  have tk: "take (nat BYTES_PER_FRAME) F = F" "drop (nat BYTES_PER_FRAME) F = []"
    using assms(2) by simp_all
  from loop_full [OF full assms(1)] obtain s' where lp: "loop F s = Some s'"
    and r: "frameBuf s' = take (nat BYTES_PER_FRAME) F \<and>
              lineBuf s' = spec_row (take (nat BYTES_PER_FRAME) F) (FRAME_H - 1) \<and>
              surface (tft s') =
                (\<lambda>(px, py). if 0 \<le> px \<and> px < FRAME_W \<and> 0 \<le> py \<and> py < FRAME_H
                              then spec_pixel (take (nat BYTES_PER_FRAME) F) px py
                              else surface (tft s) (px, py)) \<and>
              transfers (tft s') =
                transfers (tft s) @ spec_transfers (take (nat BYTES_PER_FRAME) F) \<and>
              Serial s' = \<lparr>rx = drop (nat BYTES_PER_FRAME) F, tx = tx (Serial s) @ [0xAA]\<rparr>"
    by blast
  from r have r': "frameBuf s' = F \<and> lineBuf s' = spec_row F (FRAME_H - 1) \<and>
              surface (tft s') =
                (\<lambda>(px, py). if 0 \<le> px \<and> px < FRAME_W \<and> 0 \<le> py \<and> py < FRAME_H
                              then spec_pixel F px py else surface (tft s) (px, py)) \<and>
              transfers (tft s') = transfers (tft s) @ spec_transfers F \<and>
              Serial s' = \<lparr>rx = [], tx = tx (Serial s) @ [0xAA]\<rparr>"
    unfolding tk .
  from loop_buffers_ok [OF assms(1) lp] lp r' show ?thesis
    by blast
qed

subsection \<open>The traced cycle\<close>

lemma flush_loop_traced_result:
  "flush_loop_traced p ev = (flush_loop p, ev @ map (\<lambda>b. SerialRead (uint b)) (rx p))"
proof (induction p ev rule: flush_loop_traced.induct)
  case (1 p ev)
  show ?case
  proof (cases "rx p")
    case Nil
    then show ?thesis
      by (simp add: flush_loop_traced.simps [of p ev] flush_loop.simps [of p] Serial_available_def)
  next
    case (Cons b bs)
    then have av: "Serial_available p \<noteq> 0"
      by (simp add: Serial_available_def)
    have rd: "Serial_read p = (uint b, p\<lparr>rx := bs\<rparr>)"
      using Cons by (simp add: Serial_read_def)
    have "flush_loop_traced p ev = flush_loop_traced (p\<lparr>rx := bs\<rparr>) (ev @ [SerialRead (uint b)])"
      using av rd by (simp add: flush_loop_traced.simps [of p ev])
    also have "\<dots> = (flush_loop (p\<lparr>rx := bs\<rparr>),
                     (ev @ [SerialRead (uint b)]) @ map (\<lambda>b. SerialRead (uint b)) (rx (p\<lparr>rx := bs\<rparr>)))"
      using "1.IH" [OF av rd [symmetric]] .
    also have "flush_loop (p\<lparr>rx := bs\<rparr>) = flush_loop p"
      using Cons by (simp add: flush_loop_result)
    finally show ?thesis
      using Cons by simp
  qed
qed

lemma row_loop_traced_result:
  assumes "0 \<le> y" "y \<le> FRAME_H" "length data = nat BYTES_PER_FRAME"
    and "length (lineBuf s) = nat FRAME_W"
  shows "\<exists>s'. row_loop data (FRAME_W div 8) y s = Some s' \<and>
              row_loop_traced data (FRAME_W div 8) y s ev =
                Some (s', ev @ map (\<lambda>j. Pushed (PushImage 0 (int j) FRAME_W 1 (spec_row data (int j))))
                                   [nat y..<nat FRAME_H])"
  using assms
proof (induction data "FRAME_W div 8" y s ev rule: row_loop_traced.induct)
  case (1 data y s ev)
  show ?case
  proof (cases "y < FRAME_H")
    case False
    with "1.prems" have "y = FRAME_H"
      by simp
    then show ?thesis
      by (simp add: row_loop.simps [of data _ FRAME_H s]
          row_loop_traced.simps [of data _ FRAME_H s ev])
  next
    case True
    let ?lb = "spec_row data y"
    let ?d = "(tft s)\<lparr>surface := (\<lambda>(px, py). if 0 \<le> px \<and> px < FRAME_W \<and> py = y
                                       then spec_pixel data px y else surface (tft s) (px, py)),
              transfers := transfers (tft s) @ [PushImage 0 y FRAME_W 1 (spec_row data y)]\<rparr>"
    let ?s1 = "s\<lparr>lineBuf := ?lb, tft := ?d\<rparr>"
    let ?ev1 = "ev @ [Pushed (PushImage 0 y FRAME_W 1 ?lb)]"
    have ll: "line_loop data (y * (FRAME_W div 8)) 0 (lineBuf s) = Some ?lb"
      using line_loop_row "1.prems" True by simp
    have pi: "pushImage 0 y FRAME_W 1 ?lb (tft s) = Some ?d"
      by (rule pushImage_row)
    have step: "row_loop data (FRAME_W div 8) y s = row_loop data (FRAME_W div 8) (y + 1) ?s1"
      using True ll pi by (subst row_loop.simps) simp
    have stept: "row_loop_traced data (FRAME_W div 8) y s ev =
                   row_loop_traced data (FRAME_W div 8) (y + 1) ?s1 ?ev1"
      using True ll pi by (subst row_loop_traced.simps) simp
    have p1: "0 \<le> y + 1" "y + 1 \<le> FRAME_H" "length (lineBuf ?s1) = nat FRAME_W"
      using "1.prems" True by (simp_all add: length_spec_row)
    note ih = "1.hyps" [OF True ll pi p1(1,2) "1.prems"(3) p1(3)]
    then obtain s' where r: "row_loop data (FRAME_W div 8) (y + 1) ?s1 = Some s'"
      and t: "row_loop_traced data (FRAME_W div 8) (y + 1) ?s1 ?ev1 =
                Some (s', ?ev1 @ map (\<lambda>j. Pushed (PushImage 0 (int j) FRAME_W 1 (spec_row data (int j))))
                                   [nat (y + 1)..<nat FRAME_H])"
      by blast
    have up: "[nat y..<nat FRAME_H] = nat y # [nat (y + 1)..<nat FRAME_H]"
      using True "1.prems" by (simp add: upt_conv_Cons nat_add_distrib)
    show ?thesis
      using "1.prems" by (simp add: step stept r t up)
  qed
qed


lemma drawFrameFast_traced_result:
  assumes "length data = nat BYTES_PER_FRAME" "length (lineBuf s) = nat FRAME_W"
  shows "\<exists>s'. drawFrameFast data s = Some s' \<and>
              drawFrameFast_traced data s ev = Some (s', ev @ map Pushed (spec_transfers data))"
proof -
  have "(0::int) \<le> 0" "0 \<le> FRAME_H"
    by (simp_all add: FRAME_H_def)
  from row_loop_traced_result [OF this assms, of ev] show ?thesis
    by (simp add: drawFrameFast_def drawFrameFast_traced_def spec_transfers_def comp_def)
qed

lemma readBytes_after_flush:
  assumes "buffers_ok s"
  shows "Serial_readBytes (frameBuf s) BYTES_PER_FRAME wire (flush_loop (Serial s)) =
           Some (int (min (nat BYTES_PER_FRAME) (length wire)),
                 take (nat BYTES_PER_FRAME) wire @ drop (length wire) (frameBuf s),
                 (Serial s)\<lparr>rx := drop (nat BYTES_PER_FRAME) wire\<rparr>)"
proof -
  have "length (frameBuf s) = nat BYTES_PER_FRAME"
    using assms by (simp add: buffers_ok_def)
  from readBytes_flushed [OF this] show ?thesis
    by (simp add: flush_loop_result)
qed

lemma loop_traced_result:
  assumes "buffers_ok s"
  shows "\<exists>s'. loop wire s = Some s' \<and>
              loop_traced wire s ev = Some (s', ev @ cycle_events (rx (Serial s)) wire)"
proof (cases "BYTES_PER_FRAME \<le> int (length wire)")
  case True
  let ?f = "take (nat BYTES_PER_FRAME) wire"
  let ?s1 = "s\<lparr>frameBuf := ?f, Serial := (Serial s)\<lparr>rx := drop (nat BYTES_PER_FRAME) wire\<rparr>\<rparr>"
  let ?ev2 = "ev @ map (\<lambda>b. SerialRead (uint b)) (rx (Serial s)) @ [SerialReadBytes BYTES_PER_FRAME]"
  have len: "length (frameBuf s) = nat BYTES_PER_FRAME" "length (lineBuf s) = nat FRAME_W"
    using assms by (simp_all add: buffers_ok_def)
  have n: "int (min (nat BYTES_PER_FRAME) (length wire)) = BYTES_PER_FRAME"
    using True by (simp add: min_def BYTES_PER_FRAME_def FRAME_W_def FRAME_H_def)
  have buf: "?f @ drop (length wire) (frameBuf s) = ?f"
    using True len by simp
  have rb: "Serial_readBytes (frameBuf s) BYTES_PER_FRAME wire (flush_loop (Serial s)) =
              Some (BYTES_PER_FRAME, ?f, (Serial s)\<lparr>rx := drop (nat BYTES_PER_FRAME) wire\<rparr>)"
    using readBytes_after_flush [OF assms, of wire] by (simp only: n buf)
  have lf: "length ?f = nat BYTES_PER_FRAME"
    using True by simp
  have l1: "length (lineBuf ?s1) = nat FRAME_W"
    using len by simp
  from drawFrameFast_traced_result [OF lf l1, of ?ev2]
  obtain s2 where d: "drawFrameFast ?f ?s1 = Some s2"
    and dt: "drawFrameFast_traced ?f ?s1 ?ev2 = Some (s2, ?ev2 @ map Pushed (spec_transfers ?f))"
    by blast
  have lp: "loop wire s = Some (s2\<lparr>Serial := Serial_write 0xAA (Serial s2)\<rparr>)"
    by (simp add: loop_full_call [OF True assms] d)
  have lt: "loop_traced wire s ev =
              Some (s2\<lparr>Serial := Serial_write 0xAA (Serial s2)\<rparr>,
                    (?ev2 @ map Pushed (spec_transfers ?f)) @ [SerialWrite 0xAA])"
    by (simp add: loop_traced_def flush_loop_traced_result rb Let_def dt)
  have ce: "cycle_events (rx (Serial s)) wire =
              map (\<lambda>b. SerialRead (uint b)) (rx (Serial s)) @ [SerialReadBytes BYTES_PER_FRAME] @
              map Pushed (spec_transfers ?f) @ [SerialWrite 0xAA]"
    using True by (simp only: cycle_events_def n if_True)
  show ?thesis
    by (simp add: lp lt ce)
next
  case False
  then have short: "int (length wire) < BYTES_PER_FRAME"
    by simp
  let ?s1 = "s\<lparr>frameBuf := wire @ drop (length wire) (frameBuf s), Serial := (Serial s)\<lparr>rx := []\<rparr>\<rparr>"
  have le: "length wire \<le> nat BYTES_PER_FRAME"
    using short by linarith
  have n: "int (min (nat BYTES_PER_FRAME) (length wire)) = int (length wire)"
    using le by (simp add: min_absorb2)
  have rb: "Serial_readBytes (frameBuf s) BYTES_PER_FRAME wire (flush_loop (Serial s)) =
              Some (int (length wire), wire @ drop (length wire) (frameBuf s), (Serial s)\<lparr>rx := []\<rparr>)"
  proof -
    have "length wire \<le> nat BYTES_PER_FRAME"
      using short by linarith
    then have "take (nat BYTES_PER_FRAME) wire = wire" "drop (nat BYTES_PER_FRAME) wire = []"
      by simp_all
    with readBytes_after_flush [OF assms, of wire] show ?thesis
      by (simp only: n)
  qed
  have lt: "loop_traced wire s ev =
              Some (?s1, (ev @ map (\<lambda>b. SerialRead (uint b)) (rx (Serial s))) @
                         [SerialReadBytes (int (length wire))])"
    using short by (simp add: loop_traced_def flush_loop_traced_result rb Let_def)
  have ce: "cycle_events (rx (Serial s)) wire =
              map (\<lambda>b. SerialRead (uint b)) (rx (Serial s)) @ [SerialReadBytes (int (length wire))]"
    using False by (simp add: cycle_events_def n)
  show ?thesis
    by (simp add: loop_short [OF short assms] lt ce)
qed

lemma loop_rx_after:
  assumes "buffers_ok s" "loop wire s = Some s'"
  shows "rx (Serial s') = drop (nat BYTES_PER_FRAME) wire"
proof (cases "BYTES_PER_FRAME \<le> int (length wire)")
  case True
  from loop_full [OF True assms(1)] assms(2) show ?thesis
    by auto
next
  case False
  then have short: "int (length wire) < BYTES_PER_FRAME"
    by simp
  from loop_short [OF short assms(1)] assms(2) short show ?thesis
    by auto
qed

lemma run_traced_result:
  assumes "buffers_ok s"
  shows "\<exists>s'. run wires s = Some s' \<and>
              run_traced wires s ev = Some (s', ev @ run_events (rx (Serial s)) wires)"
  using assms
proof (induction wires arbitrary: s ev)
  case Nil
  then show ?case
    by simp
next
  case (Cons w wires)
  from loop_traced_result [OF Cons.prems, of w ev]
  obtain s1 where lp: "loop w s = Some s1"
    and lt: "loop_traced w s ev = Some (s1, ev @ cycle_events (rx (Serial s)) w)"
    by blast
  have ok: "buffers_ok s1"
    using loop_buffers_ok [OF Cons.prems lp] .
  have r: "rx (Serial s1) = drop (nat BYTES_PER_FRAME) w"
    using loop_rx_after [OF Cons.prems lp] .
  from Cons.IH [OF ok, of "ev @ cycle_events (rx (Serial s)) w"] show ?case
    by (simp add: lp lt r)
qed

lemma written_append: "written (es @ fs) = written es @ written fs"
  by (induction es rule: written.induct) simp_all

lemma written_reads: "written (map (\<lambda>b. SerialRead (uint b)) bs) = []"
  by (induction bs) simp_all

lemma written_pushes: "written (map Pushed ts) = []"
  by (induction ts) simp_all

lemma written_cycle_events:
  "written (cycle_events stale wire) = (if BYTES_PER_FRAME \<le> int (length wire) then [0xAA] else [])"
  by (simp add: cycle_events_def written_append written_reads written_pushes)

lemma written_run_events:
  "written (run_events stale wires) =
     replicate (length (filter (\<lambda>w. BYTES_PER_FRAME \<le> int (length w)) wires)) 0xAA"
  by (induction wires arbitrary: stale) (simp_all add: written_append written_cycle_events)


lemma loop_frameBuf_after:
  assumes "buffers_ok s" "loop wire s = Some s'"
  shows "frameBuf s' = take (nat BYTES_PER_FRAME) wire @ drop (length wire) (frameBuf s)"
proof (cases "BYTES_PER_FRAME \<le> int (length wire)")
  case True
  have "length (frameBuf s) = nat BYTES_PER_FRAME"
    using assms(1) by (simp add: buffers_ok_def)
  with True have "drop (length wire) (frameBuf s) = []"
    by simp
  with loop_full [OF True assms(1)] assms(2) show ?thesis
    by auto
next
  case False
  then have short: "int (length wire) < BYTES_PER_FRAME"
    by simp
  then have "length wire \<le> nat BYTES_PER_FRAME"
    by linarith
  then have "take (nat BYTES_PER_FRAME) wire = wire"
    by simp
  with loop_short [OF short assms(1)] assms(2) show ?thesis
    by auto
qed

subsection \<open>Uniform frames\<close>

lemma spec_pixel_zeros:
  assumes "0 \<le> x" "x < FRAME_W" "0 \<le> y" "y < FRAME_H"
  shows "spec_pixel (replicate 1536 0x00) x y = TFT_BLACK"
proof -
  have "nat (y * (FRAME_W div 8) + x div 8) < 1536"
    using frame_index_bounds [OF assms(3,4,1,2)]
    by (simp add: BYTES_PER_FRAME_def FRAME_W_def FRAME_H_def)
  then show ?thesis
    by (simp add: spec_pixel_def)
qed

lemma spec_pixel_ones:
  assumes "0 \<le> x" "x < FRAME_W" "0 \<le> y" "y < FRAME_H"
  shows "spec_pixel (replicate 1536 0xFF) x y = TFT_WHITE"
proof -
  have i: "nat (y * (FRAME_W div 8) + x div 8) < 1536"
    using frame_index_bounds [OF assms(3,4,1,2)]
    by (simp add: BYTES_PER_FRAME_def FRAME_W_def FRAME_H_def)
  have "(0xFF::byte) = - 1"
    by simp
  then have "bit (0xFF::byte) (nat (7 - x mod 8))"
    by (simp only: bit_minus_1_iff possible_bit_word) simp
  with i show ?thesis
    by (simp add: spec_pixel_def)
qed

subsection \<open>Packing bits, most significant first\<close>

lemma foldl_shift_in:
  "foldl (\<lambda>acc b. 2 * acc + of_bool b) (a::byte) bs =
     horner_sum of_bool 2 (rev bs) + a * 2 ^ length bs"
proof (induction bs arbitrary: a)
  case Nil
  then show ?case by simp
next
  case (Cons b bs)
  have "foldl (\<lambda>acc b. 2 * acc + of_bool b) a (b # bs) =
          foldl (\<lambda>acc b. 2 * acc + of_bool b) (2 * a + of_bool b) bs"
    by simp
  also have "\<dots> = horner_sum of_bool 2 (rev bs) + (2 * a + of_bool b) * 2 ^ length bs"
    by (rule Cons.IH)
  also have "\<dots> = horner_sum of_bool 2 (rev (b # bs)) + a * 2 ^ length (b # bs)"
    by (simp add: horner_sum_append algebra_simps)
  finally show ?case .
qed

lemma rev_bits_msb:
  "rev (map (\<lambda>j. bit (w::byte) (7 - j)) [0..<8]) = map (bit w) [0..<8]"
  by (simp add: upt_rec numeral_eq_Suc)

lemma pack_msb_bits: "pack_msb (map (\<lambda>j. bit (w::byte) (7 - j)) [0..<8]) = w"
proof -
  have "pack_msb (map (\<lambda>j. bit w (7 - j)) [0..<8]) =
          horner_sum of_bool 2 (rev (map (\<lambda>j. bit w (7 - j)) [0..<8]))"
    by (simp add: pack_msb_def foldl_shift_in)
  also have "\<dots> = horner_sum of_bool 2 (map (bit w) [0..<8])"
    by (simp only: rev_bits_msb)
  also have "\<dots> = take_bit 8 w"
    by (rule horner_sum_bit_eq_take_bit)
  also have "\<dots> = w"
    by (rule take_bit_word_eq_self) simp
  finally show ?thesis .
qed


lemma spec_pixel_of_byte:
  assumes "n < nat BYTES_PER_FRAME" "j < 8"
  shows "(spec_pixel data (8 * (int n mod (FRAME_W div 8)) + int j) (int n div (FRAME_W div 8)) = TFT_WHITE) =
           bit (data ! n) (7 - j)"
proof -
  have a: "(8 * (int n mod 16) + int j) div 8 = int n mod 16"
    using assms(2) by simp
  have b: "(8 * (int n mod 16) + int j) mod 8 = int j"
    using assms(2) by simp
  have c: "int n div 16 * 16 + int n mod 16 = int n"
    by simp
  have d: "nat (7 - int j mod 8) = 7 - j"
    using assms(2) by simp
  show ?thesis
    by (simp add: spec_pixel_def FRAME_W_def a c d TFT_WHITE_def TFT_BLACK_def)
qed

lemma byte_position_in_frame:
  assumes "n < nat BYTES_PER_FRAME" "j < 8"
  shows "0 \<le> 8 * (int n mod (FRAME_W div 8)) + int j"
    and "8 * (int n mod (FRAME_W div 8)) + int j < FRAME_W"
    and "0 \<le> int n div (FRAME_W div 8)"
    and "int n div (FRAME_W div 8) < FRAME_H"
  using assms by (auto simp: FRAME_W_def FRAME_H_def BYTES_PER_FRAME_def)

lemma readback_byte_rendered:
  assumes u: "surface d =
                (\<lambda>(px, py). if 0 \<le> px \<and> px < FRAME_W \<and> 0 \<le> py \<and> py < FRAME_H
                              then spec_pixel data px py else old (px, py))"
    and n: "n < nat BYTES_PER_FRAME"
  shows "readback_byte d (int n mod (FRAME_W div 8)) (int n div (FRAME_W div 8)) = data ! n"
proof -
  let ?k = "int n mod (FRAME_W div 8)"
  let ?y = "int n div (FRAME_W div 8)"
  have "(surface d (8 * ?k + int j, ?y) = TFT_WHITE) = bit (data ! n) (7 - j)" if "j < 8" for j
    using byte_position_in_frame [OF n that] spec_pixel_of_byte [OF n that, of data]
    by (simp add: u)
  then have "map (\<lambda>j. surface d (8 * ?k + int j, ?y) = TFT_WHITE) [0..<8] =
             map (\<lambda>j. bit (data ! n) (7 - j)) [0..<8]"
    by simp
  then show ?thesis
    by (simp only: readback_byte_def pack_msb_bits)
qed

subsection \<open>The boot state\<close>

lemma buffers_ok_boot: "buffers_ok boot_state"
  by (simp add: buffers_ok_def boot_state_def)

lemma buffers_ok_painted: "buffers_ok painted_state"
  by (simp add: buffers_ok_def painted_state_def boot_state_def)

lemma frame_length_1536: "length (replicate 1536 (b::byte)) = nat BYTES_PER_FRAME"
  by (simp add: BYTES_PER_FRAME_def FRAME_W_def FRAME_H_def)

section \<open>The properties of the specification\<close>

text \<open>
  C1. For a frame buffer of \<open>BYTES_PER_FRAME\<close> bytes, \<^verbatim>\<open>drawFrameFast\<close> returns, and
  afterwards the colour of the surface at every \<open>(x, y)\<close> with \<open>0 \<le> x < FRAME_W\<close> and
  \<open>0 \<le> y < FRAME_H\<close> is white when bit \<open>7 - x mod 8\<close> of byte \<open>x div 8\<close> of the row
  starting at offset \<open>y * (FRAME_W div 8)\<close> is set and black when it is clear (the two
  colours differ, so white is shown exactly when the bit is set). The display received
  one whole-row transfer for each row, in order: row \<open>y\<close> as \<open>FRAME_W\<close> colour values
  pushed at \<open>(0, y)\<close> with height 1.
\<close>

theorem drawFrameFast_pixels_and_rows:
  assumes "length data = nat BYTES_PER_FRAME" "length (lineBuf s) = nat FRAME_W"
  shows "\<exists>s'. drawFrameFast data s = Some s' \<and>
              (\<forall>x y. 0 \<le> x \<and> x < FRAME_W \<and> 0 \<le> y \<and> y < FRAME_H \<longrightarrow>
                 surface (tft s') (x, y) =
                   (if bit (data ! nat (y * (FRAME_W div 8) + x div 8)) (nat (7 - x mod 8))
                    then TFT_WHITE else TFT_BLACK)) \<and>
              TFT_WHITE \<noteq> TFT_BLACK \<and>
              transfers (tft s') = transfers (tft s) @
                map (\<lambda>j. PushImage 0 (int j) FRAME_W 1
                           (map (\<lambda>i. spec_pixel data (int i) (int j)) [0..<nat FRAME_W]))
                    [0..<nat FRAME_H]"
proof -
  from drawFrameFast_result [OF assms]
  obtain s' where d: "drawFrameFast data s = Some s'"
    and u: "surface (tft s') =
                (\<lambda>(px, py). if 0 \<le> px \<and> px < FRAME_W \<and> 0 \<le> py \<and> py < FRAME_H
                              then spec_pixel data px py else surface (tft s) (px, py))"
    and t: "transfers (tft s') = transfers (tft s) @ spec_transfers data"
    by blast
  have px: "\<forall>x y. 0 \<le> x \<and> x < FRAME_W \<and> 0 \<le> y \<and> y < FRAME_H \<longrightarrow>
                 surface (tft s') (x, y) =
                   (if bit (data ! nat (y * (FRAME_W div 8) + x div 8)) (nat (7 - x mod 8))
                    then TFT_WHITE else TFT_BLACK)"
    by (simp add: u spec_pixel_def)
  have ne: "TFT_WHITE \<noteq> TFT_BLACK"
    by (simp add: TFT_WHITE_def TFT_BLACK_def)
  from d px ne t show ?thesis
    by (simp add: spec_transfers_def spec_row_def)
qed

theorem drawFrameFast_pixels_and_rows_witness:
  "length (replicate 1536 (0x80::byte)) = nat BYTES_PER_FRAME \<and>
   length (lineBuf boot_state) = nat FRAME_W \<and>
   (\<exists>s'. drawFrameFast (replicate 1536 0x80) boot_state = Some s' \<and>
         surface (tft s') (8, 95) = TFT_WHITE \<and>
         surface (tft s') (9, 95) = TFT_BLACK \<and>
         length (transfers (tft s')) = 96)"
proof -
  have h1: "length (replicate 1536 (0x80::byte)) = nat BYTES_PER_FRAME"
    by (rule frame_length_1536)
  have h2: "length (lineBuf boot_state) = nat FRAME_W"
    by (simp add: boot_state_def)
  from drawFrameFast_pixels_and_rows [OF h1 h2]
  obtain s' where d: "drawFrameFast (replicate 1536 0x80) boot_state = Some s'"
    and u: "\<forall>x y. 0 \<le> x \<and> x < FRAME_W \<and> 0 \<le> y \<and> y < FRAME_H \<longrightarrow>
                 surface (tft s') (x, y) =
                   (if bit (replicate 1536 (0x80::byte) ! nat (y * (FRAME_W div 8) + x div 8))
                           (nat (7 - x mod 8))
                    then TFT_WHITE else TFT_BLACK)"
    and t: "transfers (tft s') = transfers (tft boot_state) @
                map (\<lambda>j. PushImage 0 (int j) FRAME_W 1
                           (map (\<lambda>i. spec_pixel (replicate 1536 0x80) (int i) (int j))
                                [0..<nat FRAME_W]))
                    [0..<nat FRAME_H]"
    by blast
  have "surface (tft s') (8, 95) = TFT_WHITE" "surface (tft s') (9, 95) = TFT_BLACK"
    using u by (simp_all add: FRAME_W_def FRAME_H_def)
  moreover have "length (transfers (tft s')) = 96"
    by (simp add: t boot_state_def FRAME_H_def)
  ultimately show ?thesis
    using h1 h2 d by simp
qed

text \<open>
  C2. In every receive cycle that starts with the two arrays at their declared sizes, the
  read returns a count, and \<^verbatim>\<open>loop()\<close> returns. The renderer is called (on the buffer
  the read filled) and the byte 0xAA is appended to the outbound stream when the count
  equals \<open>BYTES_PER_FRAME\<close>, and only then: the display received the frame's row transfers
  if and only if the count is \<open>BYTES_PER_FRAME\<close>, and likewise the acknowledgement was
  written if and only if it is. On any other count the cycle ends with the display, the
  scanline buffer and the outbound stream unchanged: nothing is drawn, acknowledged or
  reported.
\<close>

theorem loop_renders_iff_full_read:
  assumes "buffers_ok s"
  shows "\<exists>bytesRead buf p s'.
           Serial_readBytes (frameBuf s) BYTES_PER_FRAME wire (flush_loop (Serial s)) =
             Some (bytesRead, buf, p) \<and>
           loop wire s = Some s' \<and>
           (if bytesRead = BYTES_PER_FRAME
            then \<exists>s2. drawFrameFast buf (s\<lparr>frameBuf := buf, Serial := p\<rparr>) = Some s2 \<and>
                      s' = s2\<lparr>Serial := Serial_write 0xAA (Serial s2)\<rparr>
            else s' = s\<lparr>frameBuf := buf, Serial := p\<rparr>) \<and>
           (bytesRead = BYTES_PER_FRAME) =
             (transfers (tft s') = transfers (tft s) @ spec_transfers buf) \<and>
           (bytesRead = BYTES_PER_FRAME) = (tx (Serial s') = tx (Serial s) @ [0xAA]) \<and>
           (bytesRead \<noteq> BYTES_PER_FRAME) =
             (tft s' = tft s \<and> lineBuf s' = lineBuf s \<and> tx (Serial s') = tx (Serial s))"
proof -
  have len: "length (frameBuf s) = nat BYTES_PER_FRAME"
    using assms by (simp add: buffers_ok_def)
  let ?n = "int (min (nat BYTES_PER_FRAME) (length wire))"
  let ?buf = "take (nat BYTES_PER_FRAME) wire @ drop (length wire) (frameBuf s)"
  let ?p = "(Serial s)\<lparr>rx := drop (nat BYTES_PER_FRAME) wire\<rparr>"
  have rb: "Serial_readBytes (frameBuf s) BYTES_PER_FRAME wire (flush_loop (Serial s)) =
              Some (?n, ?buf, ?p)"
    using readBytes_flushed [OF len] by (simp add: flush_loop_result)
  show ?thesis
  proof (cases "BYTES_PER_FRAME \<le> int (length wire)")
    case True
    then have n: "?n = BYTES_PER_FRAME"
      by (simp add: min_def BYTES_PER_FRAME_def FRAME_W_def FRAME_H_def)
    have buf: "?buf = take (nat BYTES_PER_FRAME) wire"
      using True len by simp
    from loop_full [OF True assms]
    obtain s' where lp: "loop wire s = Some s'"
      and t: "transfers (tft s') =
                transfers (tft s) @ spec_transfers (take (nat BYTES_PER_FRAME) wire)"
      and p: "Serial s' = \<lparr>rx = drop (nat BYTES_PER_FRAME) wire, tx = tx (Serial s) @ [0xAA]\<rparr>"
      by blast
    have call: "\<exists>s2. drawFrameFast ?buf (s\<lparr>frameBuf := ?buf, Serial := ?p\<rparr>) = Some s2 \<and>
                      s' = s2\<lparr>Serial := Serial_write 0xAA (Serial s2)\<rparr>"
      using lp by (simp add: loop_def rb n Let_def split: option.splits)
    have ne: "tft s' \<noteq> tft s"
      using t spec_transfers_not_Nil by auto
    show ?thesis
      using rb lp call t p ne by (simp add: n buf)
  next
    case False
    then have short: "int (length wire) < BYTES_PER_FRAME"
      by simp
    then have n: "?n \<noteq> BYTES_PER_FRAME"
      by (simp add: min_def)
    note lp = loop_short [OF short assms]
    have buf: "?buf = wire @ drop (length wire) (frameBuf s)"
      using short by simp
    have p: "?p = (Serial s)\<lparr>rx := []\<rparr>"
      using short by simp
    show ?thesis
      using n spec_transfers_not_Nil by (simp add: rb lp buf p)
  qed
qed

theorem loop_renders_iff_full_read_witness:
  "buffers_ok boot_state \<and>
   (\<exists>buf p s'.
      Serial_readBytes (frameBuf boot_state) BYTES_PER_FRAME (replicate 1000 0x55)
        (flush_loop (Serial boot_state)) = Some (1000, buf, p) \<and>
      loop (replicate 1000 0x55) boot_state = Some s' \<and>
      tft s' = tft boot_state \<and> tx (Serial s') = [])"
proof -
  from loop_renders_iff_full_read [OF buffers_ok_boot, of "replicate 1000 0x55"]
  obtain bytesRead buf p s'
    where rb: "Serial_readBytes (frameBuf boot_state) BYTES_PER_FRAME (replicate 1000 0x55)
                 (flush_loop (Serial boot_state)) = Some (bytesRead, buf, p)"
      and lp: "loop (replicate 1000 0x55) boot_state = Some s'"
      and sh: "(bytesRead \<noteq> BYTES_PER_FRAME) =
                 (tft s' = tft boot_state \<and> lineBuf s' = lineBuf boot_state \<and>
                  tx (Serial s') = tx (Serial boot_state))"
    by blast
  have n: "bytesRead = 1000"
    using rb
    by (simp add: Serial_readBytes_def flush_loop_result boot_state_def Let_def
        BYTES_PER_FRAME_def FRAME_W_def FRAME_H_def)
  then have "bytesRead \<noteq> BYTES_PER_FRAME"
    by (simp add: BYTES_PER_FRAME_def FRAME_W_def FRAME_H_def)
  with sh have "tft s' = tft boot_state" "tx (Serial s') = []"
    by (simp_all add: boot_state_def)
  with rb lp n buffers_ok_boot show ?thesis
    by auto
qed

text \<open>
  C3. In a cycle whose read is complete, the events are, in this order: the discards
  of the flush, the read, the \<open>FRAME_H\<close> row transfers of the frame, and then one
  \<^verbatim>\<open>Serial.write(0xAA)\<close>, which is the last event before \<^verbatim>\<open>loop()\<close> returns; the
  acknowledgement therefore follows the render and precedes the next cycle. In any
  other cycle no byte is written. Both logs of the final state agree with this: the
  outbound stream grows by the single byte 0xAA after a render and is unchanged
  otherwise. Over any number of consecutive cycles the events are those of the cycles
  one after the other, the bytes written are 0xAA once per rendered frame and nothing
  else, and the display received \<open>FRAME_H\<close> transfers for each of them.
\<close>

theorem only_acknowledgements_sent:
  assumes "buffers_ok s"
  shows "(\<exists>s1. loop wire s = Some s1 \<and>
               loop_traced wire s ev =
                 Some (s1, ev @ map (\<lambda>b. SerialRead (uint b)) (rx (Serial s)) @
                           [SerialReadBytes (int (min (nat BYTES_PER_FRAME) (length wire)))] @
                           (if BYTES_PER_FRAME \<le> int (length wire)
                            then map Pushed (spec_transfers (take (nat BYTES_PER_FRAME) wire)) @
                                 [SerialWrite 0xAA]
                            else [])) \<and>
               (if BYTES_PER_FRAME \<le> int (length wire)
                then transfers (tft s1) =
                       transfers (tft s) @ spec_transfers (take (nat BYTES_PER_FRAME) wire) \<and>
                     tx (Serial s1) = tx (Serial s) @ [0xAA]
                else tx (Serial s1) = tx (Serial s))) \<and>
         (\<exists>s'. run wires s = Some s' \<and>
               run_traced wires s ev = Some (s', ev @ run_events (rx (Serial s)) wires) \<and>
               written (run_events (rx (Serial s)) wires) =
                 replicate (length (filter (\<lambda>w. BYTES_PER_FRAME \<le> int (length w)) wires)) 0xAA \<and>
               tx (Serial s') = tx (Serial s) @
                 replicate (length (filter (\<lambda>w. BYTES_PER_FRAME \<le> int (length w)) wires)) 0xAA \<and>
               length (transfers (tft s')) = length (transfers (tft s)) +
                 nat FRAME_H * length (filter (\<lambda>w. BYTES_PER_FRAME \<le> int (length w)) wires))"
proof -
  from loop_traced_result [OF assms, of wire ev]
  obtain s1 where lp: "loop wire s = Some s1"
    and lt: "loop_traced wire s ev = Some (s1, ev @ cycle_events (rx (Serial s)) wire)"
    by blast
  have logs: "if BYTES_PER_FRAME \<le> int (length wire)
                then transfers (tft s1) =
                       transfers (tft s) @ spec_transfers (take (nat BYTES_PER_FRAME) wire) \<and>
                     tx (Serial s1) = tx (Serial s) @ [0xAA]
                else tx (Serial s1) = tx (Serial s)"
  proof (cases "BYTES_PER_FRAME \<le> int (length wire)")
    case True
    from loop_full [OF True assms] lp True show ?thesis
      by auto
  next
    case False
    then have "int (length wire) < BYTES_PER_FRAME"
      by simp
    from loop_short [OF this assms] lp False show ?thesis
      by auto
  qed
  have one: "\<exists>s1. loop wire s = Some s1 \<and>
               loop_traced wire s ev =
                 Some (s1, ev @ map (\<lambda>b. SerialRead (uint b)) (rx (Serial s)) @
                           [SerialReadBytes (int (min (nat BYTES_PER_FRAME) (length wire)))] @
                           (if BYTES_PER_FRAME \<le> int (length wire)
                            then map Pushed (spec_transfers (take (nat BYTES_PER_FRAME) wire)) @
                                 [SerialWrite 0xAA]
                            else [])) \<and>
               (if BYTES_PER_FRAME \<le> int (length wire)
                then transfers (tft s1) =
                       transfers (tft s) @ spec_transfers (take (nat BYTES_PER_FRAME) wire) \<and>
                     tx (Serial s1) = tx (Serial s) @ [0xAA]
                else tx (Serial s1) = tx (Serial s))"
    using lp lt logs unfolding cycle_events_def by blast
  from run_traced_result [OF assms, of wires ev]
  obtain s' where r: "run wires s = Some s'"
    and rt: "run_traced wires s ev = Some (s', ev @ run_events (rx (Serial s)) wires)"
    by blast
  from run_result [OF assms, of wires] r
  have a: "tx (Serial s') = tx (Serial s) @
                replicate (length (filter (\<lambda>w. BYTES_PER_FRAME \<le> int (length w)) wires)) 0xAA"
    and t: "transfers (tft s') = transfers (tft s) @
                concat (map (\<lambda>w. spec_transfers (take (nat BYTES_PER_FRAME) w))
                            (filter (\<lambda>w. BYTES_PER_FRAME \<le> int (length w)) wires))"
    by auto
  have "length (concat (map (\<lambda>w. spec_transfers (take (nat BYTES_PER_FRAME) w)) ws)) =
          nat FRAME_H * length ws" for ws :: "byte list list"
    by (induction ws) (simp_all add: length_spec_transfers)
  with t have n: "length (transfers (tft s')) = length (transfers (tft s)) +
                 nat FRAME_H * length (filter (\<lambda>w. BYTES_PER_FRAME \<le> int (length w)) wires)"
    by simp
  from one r rt a n written_run_events [of "rx (Serial s)" wires] show ?thesis
    by blast
qed

theorem only_acknowledgements_sent_witness:
  "buffers_ok boot_state \<and>
   (\<exists>s1. loop (replicate 1536 0xFF) boot_state = Some s1 \<and>
         loop_traced (replicate 1536 0xFF) boot_state [] =
           Some (s1, SerialReadBytes 1536 #
                     map Pushed (spec_transfers (replicate 1536 0xFF)) @ [SerialWrite 0xAA])) \<and>
   (\<exists>s'. run [replicate 1536 0x00, replicate 1000 0x55, replicate 1536 0xFF] boot_state = Some s' \<and>
         written (run_events [] [replicate 1536 0x00, replicate 1000 0x55, replicate 1536 0xFF]) =
           [0xAA, 0xAA] \<and>
         tx (Serial s') = [0xAA, 0xAA] \<and> length (transfers (tft s')) = 192)"
proof -
  let ?w = "replicate 1536 (0xFF::byte)"
  let ?ws = "[replicate 1536 0x00, replicate 1000 0x55, replicate 1536 (0xFF::byte)]"
  note t = only_acknowledgements_sent [OF buffers_ok_boot, of ?w "[]" ?ws]
  have f: "filter (\<lambda>w. BYTES_PER_FRAME \<le> int (length w)) ?ws =
             [replicate 1536 0x00, replicate 1536 0xFF]"
    by (simp add: BYTES_PER_FRAME_def FRAME_W_def FRAME_H_def)
  from t obtain s1 where lp: "loop ?w boot_state = Some s1"
    and lt: "loop_traced ?w boot_state [] =
                 Some (s1, [] @ map (\<lambda>b. SerialRead (uint b)) (rx (Serial boot_state)) @
                           [SerialReadBytes (int (min (nat BYTES_PER_FRAME) (length ?w)))] @
                           (if BYTES_PER_FRAME \<le> int (length ?w)
                            then map Pushed (spec_transfers (take (nat BYTES_PER_FRAME) ?w)) @
                                 [SerialWrite 0xAA]
                            else []))"
    by blast
  have lt': "loop_traced ?w boot_state [] =
           Some (s1, SerialReadBytes 1536 # map Pushed (spec_transfers ?w) @ [SerialWrite 0xAA])"
  proof -
    have rxb: "rx (Serial boot_state) = []"
      by (simp add: boot_state_def)
    have "[] @ map (\<lambda>b. SerialRead (uint b)) (rx (Serial boot_state)) @
            [SerialReadBytes (int (min (nat BYTES_PER_FRAME) (length ?w)))] @
            (if BYTES_PER_FRAME \<le> int (length ?w)
             then map Pushed (spec_transfers (take (nat BYTES_PER_FRAME) ?w)) @ [SerialWrite 0xAA]
             else []) =
          SerialReadBytes 1536 # map Pushed (spec_transfers ?w) @ [SerialWrite 0xAA]"
      by (simp add: rxb BYTES_PER_FRAME_def FRAME_W_def FRAME_H_def)
    then show ?thesis
      by (simp only: lt)
  qed
  from t obtain s' where r: "run ?ws boot_state = Some s'"
    and w: "written (run_events (rx (Serial boot_state)) ?ws) =
                 replicate (length (filter (\<lambda>w. BYTES_PER_FRAME \<le> int (length w)) ?ws)) 0xAA"
    and a: "tx (Serial s') = tx (Serial boot_state) @
              replicate (length (filter (\<lambda>w. BYTES_PER_FRAME \<le> int (length w)) ?ws)) 0xAA"
    and n: "length (transfers (tft s')) = length (transfers (tft boot_state)) +
              nat FRAME_H * length (filter (\<lambda>w. BYTES_PER_FRAME \<le> int (length w)) ?ws)"
    by blast
  have "tx (Serial s') = [0xAA, 0xAA]"
    unfolding a f by (simp add: boot_state_def)
  moreover have "length (transfers (tft s')) = 192"
    unfolding n f by (simp add: boot_state_def FRAME_H_def)
  moreover have "written (run_events [] ?ws) = [0xAA, 0xAA]"
    using w unfolding f by (simp add: boot_state_def)
  ultimately show ?thesis
    using lp lt' r buffers_ok_boot by simp
qed


text \<open>
  C4. The flush empties the receive buffer, whatever it holds, by one \<^verbatim>\<open>Serial.read()\<close>
  per buffered byte, and sends nothing. \<^verbatim>\<open>loop()\<close> runs it first in every cycle, after a
  failed cycle or a successful one alike: started with any bytes \<open>stale\<close> buffered, the
  cycle returns, its first events are the discards of all of \<open>stale\<close>, in order, and
  the read comes only after them, on the flushed port. The read therefore stores bytes
  of this cycle's delivery only, none of the stale ones, and what remains buffered
  afterwards is the unread rest of that delivery. The outcome of a cycle (and of any
  run of cycles) is the same whether stale bytes were buffered when it began or not.
\<close>

theorem flush_before_every_read:
  assumes "buffers_ok s"
  shows "rx (flush_loop p) = [] \<and> tx (flush_loop p) = tx p \<and>
         Serial_available (flush_loop p) = 0 \<and>
         flush_loop_traced p ev = (flush_loop p, ev @ map (\<lambda>b. SerialRead (uint b)) (rx p)) \<and>
         loop wire (s\<lparr>Serial := (Serial s)\<lparr>rx := stale\<rparr>\<rparr>) =
           loop wire (s\<lparr>Serial := (Serial s)\<lparr>rx := []\<rparr>\<rparr>) \<and>
         run (wire # wires) (s\<lparr>Serial := (Serial s)\<lparr>rx := stale\<rparr>\<rparr>) =
           run (wire # wires) (s\<lparr>Serial := (Serial s)\<lparr>rx := []\<rparr>\<rparr>) \<and>
         Serial_readBytes (frameBuf s) BYTES_PER_FRAME wire
             (flush_loop ((Serial s)\<lparr>rx := stale\<rparr>)) =
           Some (int (min (nat BYTES_PER_FRAME) (length wire)),
                 take (nat BYTES_PER_FRAME) wire @ drop (length wire) (frameBuf s),
                 (Serial s)\<lparr>rx := drop (nat BYTES_PER_FRAME) wire\<rparr>) \<and>
         (\<exists>s'. loop wire (s\<lparr>Serial := (Serial s)\<lparr>rx := stale\<rparr>\<rparr>) = Some s' \<and>
               loop_traced wire (s\<lparr>Serial := (Serial s)\<lparr>rx := stale\<rparr>\<rparr>) ev =
                 Some (s', ev @ map (\<lambda>b. SerialRead (uint b)) stale @
                           [SerialReadBytes (int (min (nat BYTES_PER_FRAME) (length wire)))] @
                           (if BYTES_PER_FRAME \<le> int (length wire)
                            then map Pushed (spec_transfers (take (nat BYTES_PER_FRAME) wire)) @
                                 [SerialWrite 0xAA]
                            else [])) \<and>
               frameBuf s' = take (nat BYTES_PER_FRAME) wire @ drop (length wire) (frameBuf s) \<and>
               rx (Serial s') = drop (nat BYTES_PER_FRAME) wire)"
proof -
  let ?s = "s\<lparr>Serial := (Serial s)\<lparr>rx := stale\<rparr>\<rparr>"
  have ok: "buffers_ok ?s"
    using assms by (simp add: buffers_ok_def)
  have fl: "rx (flush_loop p) = [] \<and> tx (flush_loop p) = tx p \<and>
            Serial_available (flush_loop p) = 0"
    by (simp add: flush_loop_result Serial_available_def)
  have l: "loop wire ?s = loop wire (s\<lparr>Serial := (Serial s)\<lparr>rx := []\<rparr>\<rparr>)"
    by (simp add: loop_def flush_loop_result Let_def split: option.splits)
  then have r: "run (wire # wires) ?s = run (wire # wires) (s\<lparr>Serial := (Serial s)\<lparr>rx := []\<rparr>\<rparr>)"
    by simp
  have rb: "Serial_readBytes (frameBuf s) BYTES_PER_FRAME wire
             (flush_loop ((Serial s)\<lparr>rx := stale\<rparr>)) =
           Some (int (min (nat BYTES_PER_FRAME) (length wire)),
                 take (nat BYTES_PER_FRAME) wire @ drop (length wire) (frameBuf s),
                 (Serial s)\<lparr>rx := drop (nat BYTES_PER_FRAME) wire\<rparr>)"
    using readBytes_after_flush [OF ok, of wire] by simp
  from loop_traced_result [OF ok, of wire ev]
  obtain s' where lp: "loop wire ?s = Some s'"
    and lt: "loop_traced wire ?s ev = Some (s', ev @ cycle_events (rx (Serial ?s)) wire)"
    by blast
  have lt': "loop_traced wire ?s ev =
                 Some (s', ev @ map (\<lambda>b. SerialRead (uint b)) stale @
                           [SerialReadBytes (int (min (nat BYTES_PER_FRAME) (length wire)))] @
                           (if BYTES_PER_FRAME \<le> int (length wire)
                            then map Pushed (spec_transfers (take (nat BYTES_PER_FRAME) wire)) @
                                 [SerialWrite 0xAA]
                            else []))"
    by (simp add: lt cycle_events_def)
  have fb: "frameBuf s' = take (nat BYTES_PER_FRAME) wire @ drop (length wire) (frameBuf s)"
    using loop_frameBuf_after [OF ok lp] by simp
  have rx': "rx (Serial s') = drop (nat BYTES_PER_FRAME) wire"
    using loop_rx_after [OF ok lp] .
  from fl flush_loop_traced_result [of p ev] l r rb lp lt' fb rx' show ?thesis
    by blast
qed

theorem flush_before_every_read_witness:
  "buffers_ok painted_state \<and>
   flush_loop_traced \<lparr>rx = [0x13, 0x37], tx = [0xAA]\<rparr> [] =
     (\<lparr>rx = [], tx = [0xAA]\<rparr>, [SerialRead 0x13, SerialRead 0x37]) \<and>
   (\<exists>s'. loop (replicate 1000 0x55)
           (painted_state\<lparr>Serial := (Serial painted_state)\<lparr>rx := [0x13, 0x37]\<rparr>\<rparr>) = Some s' \<and>
         loop_traced (replicate 1000 0x55)
           (painted_state\<lparr>Serial := (Serial painted_state)\<lparr>rx := [0x13, 0x37]\<rparr>\<rparr>) [] =
           Some (s', [SerialRead 0x13, SerialRead 0x37, SerialReadBytes 1000]) \<and>
         frameBuf s' = replicate 1000 0x55 @ replicate 536 0x3C \<and>
         rx (Serial s') = [])"
proof -
  let ?w = "replicate 1000 (0x55::byte)"
  let ?s = "painted_state\<lparr>Serial := (Serial painted_state)\<lparr>rx := [0x13, 0x37]\<rparr>\<rparr>"
  note t = flush_before_every_read [OF buffers_ok_painted,
      of "\<lparr>rx = [0x13, 0x37], tx = [0xAA]\<rparr>" "[]" ?w "[0x13, 0x37]" "[]"]
  note f = t [THEN conjunct2, THEN conjunct2, THEN conjunct2, THEN conjunct1]
  note h = t [THEN conjunct2, THEN conjunct2, THEN conjunct2, THEN conjunct2,
      THEN conjunct2, THEN conjunct2, THEN conjunct2]
  have f': "flush_loop_traced \<lparr>rx = [0x13, 0x37], tx = [0xAA]\<rparr> [] =
     (\<lparr>rx = [], tx = [0xAA]\<rparr>, [SerialRead 0x13, SerialRead 0x37])"
    by (simp add: f flush_loop_result)
  from h obtain s' where hs: "loop ?w ?s = Some s' \<and>
         loop_traced ?w ?s [] =
                 Some (s', [] @ map (\<lambda>b. SerialRead (uint b)) [0x13, 0x37 :: byte] @
                           [SerialReadBytes (int (min (nat BYTES_PER_FRAME) (length ?w)))] @
                           (if BYTES_PER_FRAME \<le> int (length ?w)
                            then map Pushed (spec_transfers (take (nat BYTES_PER_FRAME) ?w)) @
                                 [SerialWrite 0xAA]
                            else [])) \<and>
         frameBuf s' = take (nat BYTES_PER_FRAME) ?w @ drop (length ?w) (frameBuf painted_state) \<and>
         rx (Serial s') = drop (nat BYTES_PER_FRAME) ?w" ..
  note lp = hs [THEN conjunct1]
  note lt = hs [THEN conjunct2, THEN conjunct1]
  note fb = hs [THEN conjunct2, THEN conjunct2, THEN conjunct1]
  note rx' = hs [THEN conjunct2, THEN conjunct2, THEN conjunct2]
  have e: "[] @ map (\<lambda>b. SerialRead (uint b)) [0x13, 0x37 :: byte] @
                           [SerialReadBytes (int (min (nat BYTES_PER_FRAME) (length ?w)))] @
                           (if BYTES_PER_FRAME \<le> int (length ?w)
                            then map Pushed (spec_transfers (take (nat BYTES_PER_FRAME) ?w)) @
                                 [SerialWrite 0xAA]
                            else []) =
           [SerialRead 0x13, SerialRead 0x37, SerialReadBytes 1000]"
    by (simp add: BYTES_PER_FRAME_def FRAME_W_def FRAME_H_def)
  have lt': "loop_traced ?w ?s [] = Some (s', [SerialRead 0x13, SerialRead 0x37, SerialReadBytes 1000])"
    using e by (simp only: lt)
  have fb': "frameBuf s' = replicate 1000 0x55 @ replicate 536 0x3C"
    unfolding fb
    by (simp add: painted_state_def boot_state_def BYTES_PER_FRAME_def FRAME_W_def FRAME_H_def)
  have rx'': "rx (Serial s') = []"
    unfolding rx' by (simp add: BYTES_PER_FRAME_def FRAME_W_def FRAME_H_def)
  from lp lt' fb' rx'' have "\<exists>s'. loop ?w ?s = Some s' \<and>
         loop_traced ?w ?s [] = Some (s', [SerialRead 0x13, SerialRead 0x37, SerialReadBytes 1000]) \<and>
         frameBuf s' = replicate 1000 0x55 @ replicate 536 0x3C \<and>
         rx (Serial s') = []"
    by (intro exI [of _ s'] conjI)
  with buffers_ok_painted f' show ?thesis
    by (intro conjI)
qed

text \<open>
  C5. When garbage bytes are buffered at the start of a cycle and the link then delivers
  a clean frame of \<open>BYTES_PER_FRAME\<close> bytes, that one cycle discards the garbage, receives
  the frame into \<open>frameBuf\<close>, renders it and acknowledges it; nothing stays buffered.
\<close>

theorem resync_after_buffered_garbage:
  assumes "buffers_ok s" "length frame = nat BYTES_PER_FRAME"
  shows "\<exists>s'. loop frame (s\<lparr>Serial := (Serial s)\<lparr>rx := garbage\<rparr>\<rparr>) = Some s' \<and>
              frameBuf s' = frame \<and>
              (\<forall>x y. 0 \<le> x \<and> x < FRAME_W \<and> 0 \<le> y \<and> y < FRAME_H \<longrightarrow>
                 surface (tft s') (x, y) = spec_pixel frame x y) \<and>
              transfers (tft s') = transfers (tft s) @ spec_transfers frame \<and>
              tx (Serial s') = tx (Serial s) @ [0xAA] \<and>
              rx (Serial s') = []"
proof -
  let ?s = "s\<lparr>Serial := (Serial s)\<lparr>rx := garbage\<rparr>\<rparr>"
  have ok: "buffers_ok ?s"
    using assms(1) by (simp add: buffers_ok_def)
  have full: "BYTES_PER_FRAME \<le> int (length frame)"
    using assms(2) by (simp add: BYTES_PER_FRAME_def FRAME_W_def FRAME_H_def)
  have tk: "take (nat BYTES_PER_FRAME) frame = frame" "drop (nat BYTES_PER_FRAME) frame = []"
    using assms(2) by simp_all
  from loop_full [OF full ok]
  obtain s' where lp: "loop frame ?s = Some s'"
    and fb: "frameBuf s' = take (nat BYTES_PER_FRAME) frame"
    and u: "surface (tft s') =
                (\<lambda>(px, py). if 0 \<le> px \<and> px < FRAME_W \<and> 0 \<le> py \<and> py < FRAME_H
                              then spec_pixel (take (nat BYTES_PER_FRAME) frame) px py
                              else surface (tft ?s) (px, py))"
    and t: "transfers (tft s') =
                transfers (tft ?s) @ spec_transfers (take (nat BYTES_PER_FRAME) frame)"
    and p: "Serial s' = \<lparr>rx = drop (nat BYTES_PER_FRAME) frame, tx = tx (Serial ?s) @ [0xAA]\<rparr>"
    by blast
  have "\<forall>x y. 0 \<le> x \<and> x < FRAME_W \<and> 0 \<le> y \<and> y < FRAME_H \<longrightarrow>
                 surface (tft s') (x, y) = spec_pixel frame x y"
    by (simp add: u tk)
  with lp fb t p show ?thesis
    by (simp add: tk)
qed

theorem resync_after_buffered_garbage_witness:
  "buffers_ok boot_state \<and>
   length (replicate 1536 (0xFF::byte)) = nat BYTES_PER_FRAME \<and>
   (\<exists>s'. loop (replicate 1536 0xFF)
           (boot_state\<lparr>Serial := (Serial boot_state)\<lparr>rx := [0x13, 0x37, 0x42]\<rparr>\<rparr>) = Some s' \<and>
         frameBuf s' = replicate 1536 0xFF \<and>
         surface (tft s') (0, 0) = TFT_WHITE \<and>
         tx (Serial s') = [0xAA] \<and> rx (Serial s') = [])"
proof -
  have h: "length (replicate 1536 (0xFF::byte)) = nat BYTES_PER_FRAME"
    by (rule frame_length_1536)
  from resync_after_buffered_garbage [OF buffers_ok_boot h, of "[0x13, 0x37, 0x42]"]
  obtain s' where lp: "loop (replicate 1536 0xFF)
           (boot_state\<lparr>Serial := (Serial boot_state)\<lparr>rx := [0x13, 0x37, 0x42]\<rparr>\<rparr>) = Some s'"
    and fb: "frameBuf s' = replicate 1536 0xFF"
    and u: "\<forall>x y. 0 \<le> x \<and> x < FRAME_W \<and> 0 \<le> y \<and> y < FRAME_H \<longrightarrow>
                 surface (tft s') (x, y) = spec_pixel (replicate 1536 0xFF) x y"
    and a: "tx (Serial s') = tx (Serial boot_state) @ [0xAA]"
    and r: "rx (Serial s') = []"
    by blast
  have "surface (tft s') (0, 0) = spec_pixel (replicate 1536 0xFF) 0 0"
    using u by (simp add: FRAME_W_def FRAME_H_def)
  then have "surface (tft s') (0, 0) = TFT_WHITE"
    by (simp add: spec_pixel_def FRAME_W_def)
  with lp fb a r h buffers_ok_boot show ?thesis
    by (simp add: boot_state_def)
qed

text \<open>
  C6. For every frame \<open>F\<close> of \<open>BYTES_PER_FRAME\<close> bytes, rendering \<open>F\<close> and then reading the
  surface back (white pixel to set bit, anything else to clear bit, repacked row-major,
  most significant bit first) gives \<open>F\<close> again.
\<close>

theorem render_then_readback:
  assumes "length F = nat BYTES_PER_FRAME" "length (lineBuf s) = nat FRAME_W"
  shows "\<exists>s'. drawFrameFast F s = Some s' \<and> readback (tft s') = F"
proof -
  from drawFrameFast_result [OF assms]
  obtain s' where d: "drawFrameFast F s = Some s'"
    and u: "surface (tft s') =
                (\<lambda>(px, py). if 0 \<le> px \<and> px < FRAME_W \<and> 0 \<le> py \<and> py < FRAME_H
                              then spec_pixel F px py else surface (tft s) (px, py))"
    by blast
  have "readback (tft s') = F"
  proof (rule nth_equalityI)
    show "length (readback (tft s')) = length F"
      by (simp add: readback_def assms(1))
  next
    fix n
    assume "n < length (readback (tft s'))"
    then have n: "n < nat BYTES_PER_FRAME"
      by (simp add: readback_def)
    then show "readback (tft s') ! n = F ! n"
      using readback_byte_rendered [OF u n] by (simp add: readback_def)
  qed
  with d show ?thesis
    by simp
qed

theorem render_then_readback_witness:
  "length (replicate 1536 (0xA5::byte)) = nat BYTES_PER_FRAME \<and>
   length (lineBuf boot_state) = nat FRAME_W \<and>
   pack_msb [True, False, True, False, False, True, False, True] = 0xA5 \<and>
   (\<exists>s'. drawFrameFast (replicate 1536 0xA5) boot_state = Some s' \<and>
         readback (tft s') = replicate 1536 0xA5)"
proof -
  have h1: "length (replicate 1536 (0xA5::byte)) = nat BYTES_PER_FRAME"
    by (rule frame_length_1536)
  have h2: "length (lineBuf boot_state) = nat FRAME_W"
    by (simp add: boot_state_def)
  have "pack_msb [True, False, True, False, False, True, False, True] = 0xA5"
    by (simp add: pack_msb_def)
  with render_then_readback [OF h1 h2] h1 h2 show ?thesis
    by simp
qed

text \<open>
  C7. The frame is 128 pixels wide and 96 high, 1536 bytes. A cycle that receives 1536
  bytes 0x00 leaves every pixel of the 128 x 96 frame area black and appends one byte
  0xAA to the outbound stream; a cycle that receives 1536 bytes 0xFF leaves every pixel
  of the frame area white and appends one byte 0xAA.
\<close>

theorem all_zero_and_all_one_frames:
  assumes "buffers_ok s"
  shows "FRAME_W = 128 \<and> FRAME_H = 96 \<and> BYTES_PER_FRAME = 1536 \<and>
         (\<exists>s'. loop (replicate 1536 0x00) s = Some s' \<and>
               (\<forall>x y. 0 \<le> x \<and> x < 128 \<and> 0 \<le> y \<and> y < 96 \<longrightarrow>
                  surface (tft s') (x, y) = TFT_BLACK) \<and>
               tx (Serial s') = tx (Serial s) @ [0xAA]) \<and>
         (\<exists>s'. loop (replicate 1536 0xFF) s = Some s' \<and>
               (\<forall>x y. 0 \<le> x \<and> x < 128 \<and> 0 \<le> y \<and> y < 96 \<longrightarrow>
                  surface (tft s') (x, y) = TFT_WHITE) \<and>
               tx (Serial s') = tx (Serial s) @ [0xAA])"
proof -
  have dims: "FRAME_W = 128" "FRAME_H = 96" "BYTES_PER_FRAME = 1536"
    by (simp_all add: FRAME_W_def FRAME_H_def BYTES_PER_FRAME_def)
  have one: "\<exists>s'. loop (replicate 1536 b) s = Some s' \<and>
               (\<forall>x y. 0 \<le> x \<and> x < 128 \<and> 0 \<le> y \<and> y < 96 \<longrightarrow>
                  surface (tft s') (x, y) = spec_pixel (replicate 1536 b) x y) \<and>
               tx (Serial s') = tx (Serial s) @ [0xAA]" for b :: byte
  proof -
    have full: "BYTES_PER_FRAME \<le> int (length (replicate 1536 b))"
      by (simp add: dims)
    have tk: "take (nat BYTES_PER_FRAME) (replicate 1536 b) = replicate 1536 b"
      by (simp add: dims)
    from loop_full [OF full assms]
    obtain s' where lp: "loop (replicate 1536 b) s = Some s'"
      and u: "surface (tft s') =
                (\<lambda>(px, py). if 0 \<le> px \<and> px < FRAME_W \<and> 0 \<le> py \<and> py < FRAME_H
                              then spec_pixel (take (nat BYTES_PER_FRAME) (replicate 1536 b)) px py
                              else surface (tft s) (px, py))"
      and p: "Serial s' = \<lparr>rx = drop (nat BYTES_PER_FRAME) (replicate 1536 b),
                           tx = tx (Serial s) @ [0xAA]\<rparr>"
      by blast
    have "\<forall>x y. 0 \<le> x \<and> x < 128 \<and> 0 \<le> y \<and> y < 96 \<longrightarrow>
                  surface (tft s') (x, y) = spec_pixel (replicate 1536 b) x y"
      unfolding u tk by (simp add: dims)
    with lp p show ?thesis
      by simp
  qed
  from one [of "0x00"]
  obtain s0 where l0: "loop (replicate 1536 0x00) s = Some s0"
    and u0: "\<forall>x y. 0 \<le> x \<and> x < 128 \<and> 0 \<le> y \<and> y < 96 \<longrightarrow>
                  surface (tft s0) (x, y) = spec_pixel (replicate 1536 0x00) x y"
    and a0: "tx (Serial s0) = tx (Serial s) @ [0xAA]"
    by blast
  from one [of "0xFF"]
  obtain s1 where l1: "loop (replicate 1536 0xFF) s = Some s1"
    and u1: "\<forall>x y. 0 \<le> x \<and> x < 128 \<and> 0 \<le> y \<and> y < 96 \<longrightarrow>
                  surface (tft s1) (x, y) = spec_pixel (replicate 1536 0xFF) x y"
    and a1: "tx (Serial s1) = tx (Serial s) @ [0xAA]"
    by blast
  have b0: "\<forall>x y. 0 \<le> x \<and> x < 128 \<and> 0 \<le> y \<and> y < 96 \<longrightarrow> surface (tft s0) (x, y) = TFT_BLACK"
    using u0 spec_pixel_zeros by (simp add: dims)
  have b1: "\<forall>x y. 0 \<le> x \<and> x < 128 \<and> 0 \<le> y \<and> y < 96 \<longrightarrow> surface (tft s1) (x, y) = TFT_WHITE"
    using u1 spec_pixel_ones by (simp add: dims)
  from dims l0 b0 a0 l1 b1 a1 show ?thesis
    by blast
qed

theorem all_zero_and_all_one_frames_witness:
  "buffers_ok boot_state \<and>
   (\<exists>s'. loop (replicate 1536 0x00) boot_state = Some s' \<and>
         surface (tft s') (127, 95) = TFT_BLACK \<and> tx (Serial s') = [0xAA]) \<and>
   (\<exists>s'. loop (replicate 1536 0xFF) boot_state = Some s' \<and>
         surface (tft s') (0, 0) = TFT_WHITE \<and> surface (tft s') (127, 95) = TFT_WHITE \<and>
         tx (Serial s') = [0xAA])"
proof -
  note t = all_zero_and_all_one_frames [OF buffers_ok_boot]
  from t obtain s0 where l0: "loop (replicate 1536 0x00) boot_state = Some s0"
    and u0: "\<forall>x y. 0 \<le> x \<and> x < 128 \<and> 0 \<le> y \<and> y < 96 \<longrightarrow> surface (tft s0) (x, y) = TFT_BLACK"
    and a0: "tx (Serial s0) = tx (Serial boot_state) @ [0xAA]"
    by blast
  from t obtain s1 where l1: "loop (replicate 1536 0xFF) boot_state = Some s1"
    and u1: "\<forall>x y. 0 \<le> x \<and> x < 128 \<and> 0 \<le> y \<and> y < 96 \<longrightarrow> surface (tft s1) (x, y) = TFT_WHITE"
    and a1: "tx (Serial s1) = tx (Serial boot_state) @ [0xAA]"
    by blast
  have "surface (tft s0) (127, 95) = TFT_BLACK"
    using u0 by simp
  moreover have "surface (tft s1) (0, 0) = TFT_WHITE" "surface (tft s1) (127, 95) = TFT_WHITE"
    using u1 by simp_all
  moreover have "tx (Serial s0) = [0xAA]" "tx (Serial s1) = [0xAA]"
    using a0 a1 by (simp_all add: boot_state_def)
  ultimately show ?thesis
    using l0 l1 buffers_ok_boot by simp
qed

text \<open>
  C8. When the same complete frame \<open>F\<close> is received in two consecutive cycles, both
  cycles render: the surface after the second cycle equals the surface after the first,
  the display received the same \<open>FRAME_H\<close> row transfers each time, the two buffers hold
  the same contents, and the outbound stream grew by exactly two bytes 0xAA. The step
  is a function of the frame received: started from any other well-formed state \<open>t\<close>,
  a cycle that receives \<open>F\<close> leaves the same buffers, the same colours on the frame area
  and issues the same transfers.
\<close>

theorem same_frame_twice:
  assumes "buffers_ok s" "buffers_ok t" "length F = nat BYTES_PER_FRAME"
  shows "\<exists>s1 s2 t1.
           loop F s = Some s1 \<and> loop F s1 = Some s2 \<and> run [F, F] s = Some s2 \<and>
           surface (tft s2) = surface (tft s1) \<and>
           frameBuf s2 = frameBuf s1 \<and> lineBuf s2 = lineBuf s1 \<and>
           transfers (tft s1) = transfers (tft s) @ spec_transfers F \<and>
           transfers (tft s2) = transfers (tft s1) @ spec_transfers F \<and>
           tx (Serial s2) = tx (Serial s) @ [0xAA, 0xAA] \<and>
           loop F t = Some t1 \<and>
           frameBuf t1 = frameBuf s1 \<and> lineBuf t1 = lineBuf s1 \<and>
           (\<forall>x y. 0 \<le> x \<and> x < FRAME_W \<and> 0 \<le> y \<and> y < FRAME_H \<longrightarrow>
              surface (tft t1) (x, y) = surface (tft s1) (x, y)) \<and>
           drop (length (transfers (tft t))) (transfers (tft t1)) =
             drop (length (transfers (tft s))) (transfers (tft s1))"
proof -
  from loop_frame [OF assms(1,3)] obtain s1 where l1: "loop F s = Some s1"
    and ok1: "buffers_ok s1"
    and f1: "frameBuf s1 = F" and b1: "lineBuf s1 = spec_row F (FRAME_H - 1)"
    and u1: "surface (tft s1) =
                (\<lambda>(px, py). if 0 \<le> px \<and> px < FRAME_W \<and> 0 \<le> py \<and> py < FRAME_H
                              then spec_pixel F px py else surface (tft s) (px, py))"
    and t1: "transfers (tft s1) = transfers (tft s) @ spec_transfers F"
    and p1: "Serial s1 = \<lparr>rx = [], tx = tx (Serial s) @ [0xAA]\<rparr>"
    by blast
  from loop_frame [OF ok1 assms(3)] obtain s2 where l2: "loop F s1 = Some s2"
    and f2: "frameBuf s2 = F" and b2: "lineBuf s2 = spec_row F (FRAME_H - 1)"
    and u2: "surface (tft s2) =
                (\<lambda>(px, py). if 0 \<le> px \<and> px < FRAME_W \<and> 0 \<le> py \<and> py < FRAME_H
                              then spec_pixel F px py else surface (tft s1) (px, py))"
    and t2: "transfers (tft s2) = transfers (tft s1) @ spec_transfers F"
    and p2: "Serial s2 = \<lparr>rx = [], tx = tx (Serial s1) @ [0xAA]\<rparr>"
    by blast
  from loop_frame [OF assms(2,3)] obtain t1 where l3: "loop F t = Some t1"
    and f3: "frameBuf t1 = F" and b3: "lineBuf t1 = spec_row F (FRAME_H - 1)"
    and u3: "surface (tft t1) =
                (\<lambda>(px, py). if 0 \<le> px \<and> px < FRAME_W \<and> 0 \<le> py \<and> py < FRAME_H
                              then spec_pixel F px py else surface (tft t) (px, py))"
    and t3: "transfers (tft t1) = transfers (tft t) @ spec_transfers F"
    by blast
  have r: "run [F, F] s = Some s2"
    by (simp add: l1 l2)
  have same: "surface (tft s2) = surface (tft s1)"
    unfolding u2 by (auto simp: u1 fun_eq_iff)
  have acks: "tx (Serial s2) = tx (Serial s) @ [0xAA, 0xAA]"
    by (simp add: p2 p1)
  have px: "\<forall>x y. 0 \<le> x \<and> x < FRAME_W \<and> 0 \<le> y \<and> y < FRAME_H \<longrightarrow>
              surface (tft t1) (x, y) = surface (tft s1) (x, y)"
    by (simp add: u3 u1)
  have dr: "drop (length (transfers (tft t))) (transfers (tft t1)) =
             drop (length (transfers (tft s))) (transfers (tft s1))"
    by (simp add: t3 t1)
  from l1 l2 r same f1 f2 b1 b2 t1 t2 acks l3 f3 b3 px dr show ?thesis
    by simp
qed

theorem same_frame_twice_witness:
  "buffers_ok boot_state \<and> buffers_ok painted_state \<and>
   length (replicate 1536 (0x0F::byte)) = nat BYTES_PER_FRAME \<and>
   (\<exists>s1 s2 t1.
      loop (replicate 1536 0x0F) boot_state = Some s1 \<and>
      loop (replicate 1536 0x0F) s1 = Some s2 \<and>
      surface (tft s2) = surface (tft s1) \<and>
      tx (Serial s2) = [0xAA, 0xAA] \<and>
      loop (replicate 1536 0x0F) painted_state = Some t1 \<and>
      surface (tft t1) (3, 0) = surface (tft s1) (3, 0) \<and>
      frameBuf t1 = frameBuf s1)"
proof -
  have h: "length (replicate 1536 (0x0F::byte)) = nat BYTES_PER_FRAME"
    by (rule frame_length_1536)
  from same_frame_twice [OF buffers_ok_boot buffers_ok_painted h]
  obtain s1 s2 t1 where l1: "loop (replicate 1536 0x0F) boot_state = Some s1"
    and l2: "loop (replicate 1536 0x0F) s1 = Some s2"
    and sf: "surface (tft s2) = surface (tft s1)"
    and a: "tx (Serial s2) = tx (Serial boot_state) @ [0xAA, 0xAA]"
    and l3: "loop (replicate 1536 0x0F) painted_state = Some t1"
    and fb: "frameBuf t1 = frameBuf s1"
    and px: "\<forall>x y. 0 \<le> x \<and> x < FRAME_W \<and> 0 \<le> y \<and> y < FRAME_H \<longrightarrow>
              surface (tft t1) (x, y) = surface (tft s1) (x, y)"
    by blast
  have "surface (tft t1) (3, 0) = surface (tft s1) (3, 0)"
    using px by (simp add: FRAME_W_def FRAME_H_def)
  moreover have "tx (Serial s2) = [0xAA, 0xAA]"
    using a by (simp add: boot_state_def)
  ultimately show ?thesis
    using l1 l2 sf l3 fb h buffers_ok_boot buffers_ok_painted by blast
qed

text \<open>
  C9. \<open>BYTES_PER_FRAME\<close> is 1536 and \<open>FRAME_W\<close> is 128. For every row \<open>0 \<le> y < FRAME_H\<close>
  and column \<open>0 \<le> x < FRAME_W\<close>, the frame-buffer index the renderer reads,
  \<open>y * (FRAME_W div 8) + (x >> 3)\<close>, equals \<open>y * (FRAME_W div 8) + x div 8\<close>, is not
  negative and is below \<open>BYTES_PER_FRAME\<close>, so the embedded read returns a value; the
  scanline index \<open>x\<close> is inside the scanline buffer, so the embedded write succeeds;
  the row transfer reads no more than the scanline buffer holds; and neither the inner
  loop nor \<^verbatim>\<open>drawFrameFast\<close> as a whole ever yields \<open>None\<close>.
\<close>

theorem renderer_indexing_in_bounds:
  assumes "length data = nat BYTES_PER_FRAME"
    and "length lb = nat FRAME_W" "length (lineBuf s) = nat FRAME_W"
    and "0 \<le> y" "y < FRAME_H" "0 \<le> x" "x < FRAME_W"
  shows "BYTES_PER_FRAME = 1536 \<and> FRAME_W = 128 \<and>
         y * (FRAME_W div 8) + drop_bit 3 x = y * (FRAME_W div 8) + x div 8 \<and>
         0 \<le> y * (FRAME_W div 8) + x div 8 \<and>
         y * (FRAME_W div 8) + x div 8 < BYTES_PER_FRAME \<and>
         read_at data (y * (FRAME_W div 8) + drop_bit 3 x) =
           Some (data ! nat (y * (FRAME_W div 8) + x div 8)) \<and>
         write_at lb x c = Some (lb[nat x := c]) \<and>
         pushImage 0 y FRAME_W 1 lb d \<noteq> None \<and>
         line_loop data (y * (FRAME_W div 8)) 0 lb \<noteq> None \<and>
         drawFrameFast data s \<noteq> None"
proof -
  have dims: "BYTES_PER_FRAME = 1536" "FRAME_W = 128"
    by (simp_all add: BYTES_PER_FRAME_def FRAME_W_def FRAME_H_def)
  note idx = frame_index_bounds [OF assms(4,5,6,7)]
  have rd: "read_at data (y * (FRAME_W div 8) + drop_bit 3 x) =
           Some (data ! nat (y * (FRAME_W div 8) + x div 8))"
    using idx assms(1) by (simp add: read_at_def shift_3_eq_div_8)
  have wr: "write_at lb x c = Some (lb[nat x := c])"
    using assms(2,6,7) by (simp add: write_at_def)
  have pi: "pushImage 0 y FRAME_W 1 lb d \<noteq> None"
    using assms(2) by (simp add: pushImage_def FRAME_W_def)
  have ll: "line_loop data (y * (FRAME_W div 8)) 0 lb \<noteq> None"
    using line_loop_row [OF assms(2,4,5,1)] by simp
  have dr: "drawFrameFast data s \<noteq> None"
    using drawFrameFast_result [OF assms(1,3)] by auto
  from dims idx rd wr pi ll dr show ?thesis
    by (simp add: shift_3_eq_div_8)
qed

theorem renderer_indexing_in_bounds_witness:
  "length (replicate 1536 (0::byte)) = nat BYTES_PER_FRAME \<and>
   length (replicate 128 (0::color)) = nat FRAME_W \<and>
   length (lineBuf boot_state) = nat FRAME_W \<and>
   (0::int) \<le> 95 \<and> 95 < FRAME_H \<and> (0::int) \<le> 127 \<and> 127 < FRAME_W \<and>
   read_at (replicate 1536 (0::byte)) 1535 = Some 0 \<and>
   write_at (replicate 128 (0::color)) 127 TFT_WHITE = Some ((replicate 128 0)[127 := TFT_WHITE]) \<and>
   drawFrameFast (replicate 1536 0) boot_state \<noteq> None"
proof -
  have h1: "length (replicate 1536 (0::byte)) = nat BYTES_PER_FRAME"
    by (rule frame_length_1536)
  have h2: "length (replicate 128 (0::color)) = nat FRAME_W"
    by (simp add: FRAME_W_def)
  have h3: "length (lineBuf boot_state) = nat FRAME_W"
    by (simp add: boot_state_def)
  have h4: "(0::int) \<le> 95" "95 < FRAME_H" "(0::int) \<le> 127" "127 < FRAME_W"
    by (simp_all add: FRAME_W_def FRAME_H_def)
  from renderer_indexing_in_bounds [OF h1 h2 h3 h4, of TFT_WHITE]
  have "read_at (replicate 1536 (0::byte)) (95 * (FRAME_W div 8) + drop_bit 3 127) =
           Some (replicate 1536 0 ! nat (95 * (FRAME_W div 8) + 127 div 8))"
    and "write_at (replicate 128 (0::color)) 127 TFT_WHITE = Some ((replicate 128 0)[nat 127 := TFT_WHITE])"
    and "drawFrameFast (replicate 1536 0) boot_state \<noteq> None"
    by blast+
  then show ?thesis
    using h1 h2 h3 h4 by (simp add: FRAME_W_def shift_3_eq_div_8)
qed

text \<open>
  C10. A cycle stores what its read delivered at the start of \<open>frameBuf\<close> and leaves the
  rest of the buffer as it was, so after a short read the buffer is a mixture of the
  new bytes and older ones. The renderer is not called in that case and the display is
  unchanged. The renderer is called only after a complete read, and then on exactly the
  \<open>BYTES_PER_FRAME\<close> bytes that this read delivered. Over any number of cycles, the
  transfers the display receives are those of the frames delivered by the complete
  reads, in order, and nothing else.
\<close>

theorem renderer_sees_only_complete_reads:
  assumes "buffers_ok s"
  shows "(\<exists>s'. loop wire s = Some s' \<and> buffers_ok s' \<and>
               frameBuf s' = take (nat BYTES_PER_FRAME) wire @ drop (length wire) (frameBuf s) \<and>
               (if BYTES_PER_FRAME \<le> int (length wire)
                then frameBuf s' = take (nat BYTES_PER_FRAME) wire \<and>
                     (\<exists>s2. drawFrameFast (take (nat BYTES_PER_FRAME) wire)
                             (s\<lparr>frameBuf := take (nat BYTES_PER_FRAME) wire,
                                Serial := (Serial s)\<lparr>rx := drop (nat BYTES_PER_FRAME) wire\<rparr>\<rparr>) =
                             Some s2 \<and>
                           s' = s2\<lparr>Serial := Serial_write 0xAA (Serial s2)\<rparr>) \<and>
                     transfers (tft s') =
                       transfers (tft s) @ spec_transfers (take (nat BYTES_PER_FRAME) wire)
                else s' = s\<lparr>frameBuf := wire @ drop (length wire) (frameBuf s),
                            Serial := (Serial s)\<lparr>rx := []\<rparr>\<rparr> \<and>
                     tft s' = tft s)) \<and>
         (\<exists>s'. run wires s = Some s' \<and>
               transfers (tft s') = transfers (tft s) @
                 concat (map (\<lambda>w. spec_transfers (take (nat BYTES_PER_FRAME) w))
                             (filter (\<lambda>w. BYTES_PER_FRAME \<le> int (length w)) wires)))"
proof -
  have len: "length (frameBuf s) = nat BYTES_PER_FRAME"
    using assms by (simp add: buffers_ok_def)
  have one: "\<exists>s'. loop wire s = Some s' \<and> buffers_ok s' \<and>
               frameBuf s' = take (nat BYTES_PER_FRAME) wire @ drop (length wire) (frameBuf s) \<and>
               (if BYTES_PER_FRAME \<le> int (length wire)
                then frameBuf s' = take (nat BYTES_PER_FRAME) wire \<and>
                     (\<exists>s2. drawFrameFast (take (nat BYTES_PER_FRAME) wire)
                             (s\<lparr>frameBuf := take (nat BYTES_PER_FRAME) wire,
                                Serial := (Serial s)\<lparr>rx := drop (nat BYTES_PER_FRAME) wire\<rparr>\<rparr>) =
                             Some s2 \<and>
                           s' = s2\<lparr>Serial := Serial_write 0xAA (Serial s2)\<rparr>) \<and>
                     transfers (tft s') =
                       transfers (tft s) @ spec_transfers (take (nat BYTES_PER_FRAME) wire)
                else s' = s\<lparr>frameBuf := wire @ drop (length wire) (frameBuf s),
                            Serial := (Serial s)\<lparr>rx := []\<rparr>\<rparr> \<and>
                     tft s' = tft s)"
  proof (cases "BYTES_PER_FRAME \<le> int (length wire)")
    case True
    from loop_full [OF True assms] obtain s' where lp: "loop wire s = Some s'"
      and fb: "frameBuf s' = take (nat BYTES_PER_FRAME) wire"
      and t: "transfers (tft s') =
                transfers (tft s) @ spec_transfers (take (nat BYTES_PER_FRAME) wire)"
      by blast
    have dr: "drop (length wire) (frameBuf s) = []"
      using True len by simp
    have call: "\<exists>s2. drawFrameFast (take (nat BYTES_PER_FRAME) wire)
                             (s\<lparr>frameBuf := take (nat BYTES_PER_FRAME) wire,
                                Serial := (Serial s)\<lparr>rx := drop (nat BYTES_PER_FRAME) wire\<rparr>\<rparr>) =
                             Some s2 \<and>
                           s' = s2\<lparr>Serial := Serial_write 0xAA (Serial s2)\<rparr>"
      using lp unfolding loop_full_call [OF True assms] by (simp split: option.splits)
    from loop_buffers_ok [OF assms lp] lp fb t call True show ?thesis
      by (simp add: dr)
  next
    case False
    then have short: "int (length wire) < BYTES_PER_FRAME"
      by simp
    note lp = loop_short [OF short assms]
    have tk: "take (nat BYTES_PER_FRAME) wire = wire"
      using short by simp
    from loop_buffers_ok [OF assms lp] False show ?thesis
      by (simp add: lp tk)
  qed
  from run_result [OF assms, of wires] one show ?thesis
    by blast
qed

theorem renderer_sees_only_complete_reads_witness:
  "buffers_ok painted_state \<and>
   (\<exists>s'. loop (replicate 1000 0x55) painted_state = Some s' \<and>
         frameBuf s' = replicate 1000 0x55 @ replicate 536 0x3C \<and>
         tft s' = tft painted_state) \<and>
   (\<exists>s'. run [replicate 1000 0x55, replicate 1536 0xFF] painted_state = Some s' \<and>
         transfers (tft s') =
           transfers (tft painted_state) @ spec_transfers (replicate 1536 0xFF))"
proof -
  let ?w = "replicate 1000 (0x55::byte)"
  let ?ws = "[replicate 1000 0x55, replicate 1536 (0xFF::byte)]"
  note t = renderer_sees_only_complete_reads [OF buffers_ok_painted, of ?w ?ws]
  have short: "\<not> BYTES_PER_FRAME \<le> int (length ?w)"
    by (simp add: BYTES_PER_FRAME_def FRAME_W_def FRAME_H_def)
  from t obtain s' where lp: "loop ?w painted_state = Some s'"
    and fb: "frameBuf s' = take (nat BYTES_PER_FRAME) ?w @ drop (length ?w) (frameBuf painted_state)"
    and c: "if BYTES_PER_FRAME \<le> int (length ?w)
                then frameBuf s' = take (nat BYTES_PER_FRAME) ?w \<and>
                     (\<exists>s2. drawFrameFast (take (nat BYTES_PER_FRAME) ?w)
                             (painted_state\<lparr>frameBuf := take (nat BYTES_PER_FRAME) ?w,
                                Serial := (Serial painted_state)\<lparr>rx := drop (nat BYTES_PER_FRAME) ?w\<rparr>\<rparr>) =
                             Some s2 \<and>
                           s' = s2\<lparr>Serial := Serial_write 0xAA (Serial s2)\<rparr>) \<and>
                     transfers (tft s') =
                       transfers (tft painted_state) @ spec_transfers (take (nat BYTES_PER_FRAME) ?w)
                else s' = painted_state\<lparr>frameBuf := ?w @ drop (length ?w) (frameBuf painted_state),
                            Serial := (Serial painted_state)\<lparr>rx := []\<rparr>\<rparr> \<and>
                     tft s' = tft painted_state"
    by blast
  from c short have same: "tft s' = tft painted_state"
    by simp
  have mix: "frameBuf s' = replicate 1000 0x55 @ replicate 536 0x3C"
    unfolding fb
    by (simp add: painted_state_def boot_state_def BYTES_PER_FRAME_def FRAME_W_def FRAME_H_def)
  from t obtain s'' where r: "run ?ws painted_state = Some s''"
    and tr: "transfers (tft s'') = transfers (tft painted_state) @
                 concat (map (\<lambda>w. spec_transfers (take (nat BYTES_PER_FRAME) w))
                             (filter (\<lambda>w. BYTES_PER_FRAME \<le> int (length w)) ?ws))"
    by blast
  have "transfers (tft s'') =
          transfers (tft painted_state) @ spec_transfers (replicate 1536 0xFF)"
    unfolding tr by (simp add: BYTES_PER_FRAME_def FRAME_W_def FRAME_H_def)
  with r lp mix same buffers_ok_painted show ?thesis
    by blast
qed

end
